theory Spec2Isabelle
  imports Main
begin

section \<open>The node tree of the editor value (packages/slate/src/classes/queries/value.ts)\<close>

text \<open>
  A path is the sequence of child indices from the root of the value. A mark is identified
  by its key. The marks of a text node are a JavaScript array: the node holds a reference
  to it, and the arrays live in a store, so that two variables naming one array are
  visible as such.
\<close>

type_synonym Path = "nat list"
type_synonym Mark = string
type_synonym addr = nat
type_synonym store = "addr \<Rightarrow> Mark list"

datatype Node =
    Text (text_of: string) (marks_of: addr)
  | Element (isInline: bool) (isVoid: bool) (children_of: "Node list")

record Point =
  path :: Path
  offset :: int

record Range =
  anchor :: Point
  focus :: Point
  marks :: "Mark list option"

record Value =
  children :: "Node list"
  selection :: "Range option"

record Editor =
  val :: Value
  heap :: store

datatype Error =
    NodeNotFoundError | InvalidPathError | InvalidOperationError | StalePointError | TypeError

subsection \<open>Path algebra\<close>

text \<open>
  Modelled from the spec: \<open>Path.isAncestor\<close>, \<open>Path.isBefore\<close>, \<open>Path.isAfter\<close> and
  \<open>Path.relative\<close> (section 4.1; their code is not among the sources). A path is an
  ancestor of another iff it is a strict prefix of it; paths are compared
  lexicographically for document order, an ancestor coming before its descendants;
  \<open>relative\<close> drops the root prefix and fails with \<open>InvalidPathError\<close> when the root is
  not a prefix.
\<close>

fun Path_isPrefix :: "Path \<Rightarrow> Path \<Rightarrow> bool" where
  "Path_isPrefix [] q = True"
| "Path_isPrefix (i # p) [] = False"
| "Path_isPrefix (i # p) (j # q) = (i = j \<and> Path_isPrefix p q)"

definition Path_isAncestor :: "Path \<Rightarrow> Path \<Rightarrow> bool" where
  "Path_isAncestor p q = (Path_isPrefix p q \<and> length p < length q)"

fun Path_isBefore :: "Path \<Rightarrow> Path \<Rightarrow> bool" where
  "Path_isBefore [] [] = False"
| "Path_isBefore [] (j # q) = True"
| "Path_isBefore (i # p) [] = False"
| "Path_isBefore (i # p) (j # q) = (i < j \<or> (i = j \<and> Path_isBefore p q))"

definition Path_isAfter :: "Path \<Rightarrow> Path \<Rightarrow> bool" where
  "Path_isAfter p q = Path_isBefore q p"

fun Path_relative :: "Path \<Rightarrow> Path \<Rightarrow> Error + Path" where
  "Path_relative p [] = Inr p"
| "Path_relative [] (j # r) = Inl InvalidPathError"
| "Path_relative (i # p) (j # r) = (if i = j then Path_relative p r else Inl InvalidPathError)"

subsection \<open>Node tree queries\<close>

text \<open>
  Modelled from the spec: the read-only queries of section 4.2 (\<open>Node.texts\<close>,
  \<open>Node.text\<close>, \<open>Node.offset\<close>, \<open>Node.leaf\<close>, \<open>getClosestBlock\<close>, \<open>getFurthestVoid\<close>,
  \<open>getPreviousText\<close>, \<open>getNextText\<close>); value.ts imports them, their code is not among the
  sources. The root of the tree is the value itself, given by its list of children.
\<close>

text \<open>\<open>Node.texts(root)\<close>: the \<open>[node, path]\<close> entries of all text nodes, in document order.\<close>

fun texts_node :: "Path \<Rightarrow> Node \<Rightarrow> (Node \<times> Path) list"
  and texts_list :: "Path \<Rightarrow> nat \<Rightarrow> Node list \<Rightarrow> (Node \<times> Path) list" where
  "texts_node p (Text s m) = [(Text s m, p)]"
| "texts_node p (Element i v cs) = texts_list p 0 cs"
| "texts_list p k [] = []"
| "texts_list p k (c # cs) = texts_node (p @ [k]) c @ texts_list p (Suc k) cs"

definition Node_texts :: "Node list \<Rightarrow> bool \<Rightarrow> (Node \<times> Path) list" where
  "Node_texts root reverse =
     (if reverse then rev (texts_list [] 0 root) else texts_list [] 0 root)"

text \<open>
  \<open>Node.text(node)\<close>: the concatenated text content of a subtree, the empty string for a
  void subtree.
\<close>

fun Node_text :: "Node \<Rightarrow> string" where
  "Node_text (Text s m) = s"
| "Node_text (Element i v cs) = (if v then [] else concat (map Node_text cs))"

definition root_text :: "Node list \<Rightarrow> string" where
  "root_text cs = concat (map Node_text cs)"

text \<open>
  \<open>Node.offset(root, relativePath)\<close>: the number of characters preceding the relative path
  within the root's text.
\<close>

fun Node_offset :: "Node list \<Rightarrow> Path \<Rightarrow> int" where
  "Node_offset cs [] = 0"
| "Node_offset cs (i # p) =
     int (length (root_text (take i cs))) +
     (if i < length cs
      then (case cs ! i of
              Element inl v cs' \<Rightarrow> (if v then 0 else Node_offset cs' p)
            | Text s m \<Rightarrow> 0)
      else 0)"

text \<open>The node at a path, \<open>None\<close> when the path leads nowhere (or is the root itself).\<close>

fun Node_get :: "Node list \<Rightarrow> Path \<Rightarrow> Node option" where
  "Node_get cs [] = None"
| "Node_get cs (i # p) =
     (if i < length cs
      then (if p = [] then Some (cs ! i)
            else (case cs ! i of
                    Element inl v cs' \<Rightarrow> Node_get cs' p
                  | Text s m \<Rightarrow> None))
      else None)"

text \<open>\<open>Node.leaf(root, path)\<close>: the text node at the path; it throws when there is none.\<close>

definition Node_leaf :: "Node list \<Rightarrow> Path \<Rightarrow> Error + Node" where
  "Node_leaf cs p =
     (case Node_get cs p of
        Some (Text s m) \<Rightarrow> Inr (Text s m)
      | Some (Element inl v cs') \<Rightarrow> Inl NodeNotFoundError
      | None \<Rightarrow> Inl NodeNotFoundError)"

text \<open>
  The entries met while walking from the root down to a path, outermost first, the node
  at the path included.
\<close>

fun levels :: "Node list \<Rightarrow> Path \<Rightarrow> Path \<Rightarrow> (Node \<times> Path) list" where
  "levels cs acc [] = []"
| "levels cs acc (i # p) =
     (if i < length cs
      then (cs ! i, acc @ [i]) #
           (case cs ! i of
              Element inl v cs' \<Rightarrow> levels cs' (acc @ [i]) p
            | Text s m \<Rightarrow> [])
      else [])"

fun is_void_entry :: "Node \<times> Path \<Rightarrow> bool" where
  "is_void_entry (Element inl v cs, q) = v"
| "is_void_entry (Text s m, q) = False"

fun is_block_entry :: "Node \<times> Path \<Rightarrow> bool" where
  "is_block_entry (Element inl v cs, q) = (\<not> inl)"
| "is_block_entry (Text s m, q) = False"

text \<open>\<open>getFurthestVoid(path)\<close>: the outermost ancestor (inclusive) that is void, or none.\<close>

definition getFurthestVoid :: "Node list \<Rightarrow> Path \<Rightarrow> (Node \<times> Path) option" where
  "getFurthestVoid root p = List.find is_void_entry (levels root [] p)"

text \<open>\<open>getClosestBlock(path)\<close>: the nearest non-inline ancestor entry, or none.\<close>

definition getClosestBlock :: "Node list \<Rightarrow> Path \<Rightarrow> (Node \<times> Path) option" where
  "getClosestBlock root p =
     List.find is_block_entry
       (rev (filter (\<lambda>e. length (snd e) < length p) (levels root [] p)))"

text \<open>
  \<open>texts({path, reverse})\<close>: the text entries that follow the node at the path in
  document order, outside of it (that precede it, nearest first, when reversed). The
  iterator "walks forward (or backward) across sibling text nodes" from the current one
  (section 4.5, step 5), and the loop of \<open>positions\<close> starts its count with what is left
  of the current text node.
\<close>

definition texts_from :: "Node list \<Rightarrow> Path \<Rightarrow> bool \<Rightarrow> (Node \<times> Path) list" where
  "texts_from root p reverse =
     (if reverse
      then filter (\<lambda>e. Path_isBefore (snd e) p \<and> \<not> Path_isPrefix (snd e) p) (Node_texts root True)
      else filter (\<lambda>e. Path_isAfter (snd e) p \<and> \<not> Path_isPrefix p (snd e)) (Node_texts root False))"

text \<open>
  \<open>getNextText(path)\<close> and \<open>getPreviousText(path)\<close>: the adjacent text node outside of the
  node at the path, or none.
\<close>

definition getNextText :: "Node list \<Rightarrow> Path \<Rightarrow> (Node \<times> Path) option" where
  "getNextText root p = (case texts_from root p False of [] \<Rightarrow> None | e # es \<Rightarrow> Some e)"

definition getPreviousText :: "Node list \<Rightarrow> Path \<Rightarrow> (Node \<times> Path) option" where
  "getPreviousText root p = (case texts_from root p True of [] \<Rightarrow> None | e # es \<Rightarrow> Some e)"

text \<open>
  The start and end points of the node at a path: offset 0 of its first text node and the
  end of its last one; \<open>isAtStartOfPath\<close> and \<open>isAtEndOfPath\<close> compare a point with
  them ("at the boundary of the block with nothing left to traverse locally"). A path
  with no text node below it (never the path of a text entry) keeps the points on itself.
\<close>

definition texts_under :: "Node list \<Rightarrow> Path \<Rightarrow> (Node \<times> Path) list" where
  "texts_under root p = filter (\<lambda>e. Path_isPrefix p (snd e)) (Node_texts root False)"

definition getStart :: "Node list \<Rightarrow> Path \<Rightarrow> Point" where
  "getStart root p =
     (case texts_under root p of
        [] \<Rightarrow> \<lparr>path = p, offset = 0\<rparr>
      | e # es \<Rightarrow> \<lparr>path = snd e, offset = 0\<rparr>)"

definition getEnd :: "Node list \<Rightarrow> Path \<Rightarrow> Point" where
  "getEnd root p =
     (case rev (texts_under root p) of
        [] \<Rightarrow> \<lparr>path = p, offset = 0\<rparr>
      | e # es \<Rightarrow> \<lparr>path = snd e, offset = int (length (text_of (fst e)))\<rparr>)"

definition isAtStartOfPath :: "Node list \<Rightarrow> Point \<Rightarrow> Path \<Rightarrow> bool" where
  "isAtStartOfPath root point p = (point = getStart root p)"

definition isAtEndOfPath :: "Node list \<Rightarrow> Point \<Rightarrow> Path \<Rightarrow> bool" where
  "isAtEndOfPath root point p = (point = getEnd root p)"

subsection \<open>Ranges\<close>

text \<open>
  Modelled from the spec: \<open>Range.isCollapsed\<close>, the ordered \<open>start\<close>/\<open>end\<close> pair of a
  range, \<open>getRange(path)\<close> and \<open>Node.texts(root, {range})\<close> (section 3 and 4.2; code not
  among the sources). A range is collapsed iff anchor equals focus; start and end are
  anchor and focus sorted into document order; \<open>getRange(path)\<close> spans the node at the
  path; the texts of a range are the text entries from the start's text node to the
  end's, in document order.
\<close>

definition Range_isCollapsed :: "Range \<Rightarrow> bool" where
  "Range_isCollapsed r = (path (anchor r) = path (focus r) \<and> offset (anchor r) = offset (focus r))"

definition Point_isAfter :: "Point \<Rightarrow> Point \<Rightarrow> bool" where
  "Point_isAfter a b =
     (Path_isAfter (path a) (path b) \<or> (path a = path b \<and> offset a > offset b))"

definition Range_start :: "Range \<Rightarrow> Point" where
  "Range_start r = (if Point_isAfter (anchor r) (focus r) then focus r else anchor r)"

definition Range_end :: "Range \<Rightarrow> Point" where
  "Range_end r = (if Point_isAfter (anchor r) (focus r) then anchor r else focus r)"

definition getRange :: "Node list \<Rightarrow> Path \<Rightarrow> Range" where
  "getRange root p = \<lparr>anchor = getStart root p, focus = getEnd root p, marks = None\<rparr>"

definition Node_texts_range :: "Node list \<Rightarrow> Range \<Rightarrow> (Node \<times> Path) list" where
  "Node_texts_range root r =
     filter (\<lambda>e. \<not> Path_isBefore (snd e) (path (Range_start r)) \<and>
                 \<not> Path_isAfter (snd e) (path (Range_end r)))
       (Node_texts root False)"

section \<open>getActiveMarks\<close>

text \<open>
  Modelled from the spec: \<open>Mark.exists(mark, marks)\<close> (code not among the sources) tells
  whether the mark is present in the array ("remove any mark not also present", "add any
  not-yet-present mark").
\<close>

definition Mark_exists :: "Mark \<Rightarrow> Mark list \<Rightarrow> bool" where
  "Mark_exists mark ms = (mark \<in> set ms)"

text \<open>
  The variable \<open>result\<close> of \<open>getActiveMarks\<close> names an array: the fresh \<open>[]\<close> it is
  initialised with, or, after \<open>result = marks\<close>, the very array of a text node.
  \<open>push\<close> and \<open>splice\<close> change the array that the variable names, in place.
\<close>

datatype resvar = Fresh "Mark list" | Alias addr

fun deref :: "store \<Rightarrow> resvar \<Rightarrow> Mark list" where
  "deref s (Fresh ms) = ms"
| "deref s (Alias a) = s a"

fun assign :: "resvar \<times> store \<Rightarrow> Mark list \<Rightarrow> resvar \<times> store" where
  "assign (Fresh old, s) ms = (Fresh ms, s)"
| "assign (Alias a, s) ms = (Alias a, s(a := ms))"

definition push :: "resvar \<times> store \<Rightarrow> Mark \<Rightarrow> resvar \<times> store" where
  "push rs mark = assign rs (deref (snd rs) (fst rs) @ [mark])"

definition splice1 :: "resvar \<times> store \<Rightarrow> nat \<Rightarrow> resvar \<times> store" where
  "splice1 rs i = assign rs (take i (deref (snd rs) (fst rs)) @ drop (Suc i) (deref (snd rs) (fst rs)))"

text \<open>
  The union branch, lines 100-104: \<open>for (const mark of marks)\<close> walks the array of the
  current node by index, reading its length anew at every step;
  \<open>if (!Mark.exists(mark, marks)) result.push(mark)\<close>.
\<close>

function union_loop :: "nat \<Rightarrow> addr \<Rightarrow> resvar \<times> store \<Rightarrow> resvar \<times> store" where
  "union_loop i m rs =
     (if i < length (snd rs m)
      then (if \<not> Mark_exists (snd rs m ! i) (snd rs m)
            then union_loop (Suc i) m (push rs (snd rs m ! i))
            else union_loop (Suc i) m rs)
      else rs)"
  by pat_completeness auto
termination
  by (relation "measure (\<lambda>(i, m, rs). length (snd rs m) - i)")
     (auto simp: Mark_exists_def)

text \<open>
  The intersection branch, lines 108-114: \<open>i\<close> runs from \<open>result.length - 1\<close> down to 0;
  the counter here is \<open>i + 1\<close>.
\<close>

fun intersect_loop :: "nat \<Rightarrow> addr \<Rightarrow> resvar \<times> store \<Rightarrow> resvar \<times> store" where
  "intersect_loop 0 m rs = rs"
| "intersect_loop (Suc i) m rs =
     (if \<not> Mark_exists (deref (snd rs) (fst rs) ! i) (snd rs m)
      then intersect_loop i m (splice1 rs i)
      else intersect_loop i m rs)"

text \<open>
  The loop over the text nodes of the range, lines 84-116. The flag is \<open>first\<close>; reaching
  the end of the list or the \<open>break\<close> leaves the loop.
\<close>

function marks_loop :: "bool \<Rightarrow> (Node \<times> Path) list \<Rightarrow> bool \<Rightarrow> resvar \<times> store \<Rightarrow> resvar \<times> store" where
  "marks_loop unionOpt [] first rs = rs"
| "marks_loop unionOpt (e # es) first rs =
     (let m = marks_of (fst e) in
      if first then marks_loop unionOpt es False (Alias m, snd rs)
      else if \<not> unionOpt \<and> length (deref (snd rs) (fst rs)) = 0 then rs
      else if unionOpt then marks_loop unionOpt es first (union_loop 0 m rs)
      else marks_loop unionOpt es first (intersect_loop (length (deref (snd rs) (fst rs))) m rs))"
  by pat_completeness auto
termination
  by (relation "measure (\<lambda>(u, es, f, rs). length es)") auto

text \<open>
  \<open>getActiveMarks\<close>, lines 45-119. The result is the content of the returned array and
  the store as the call leaves it.
\<close>

definition getActiveMarks :: "Editor \<Rightarrow> bool \<Rightarrow> Mark list \<times> store" where
  "getActiveMarks e unionOpt =
     (case selection (val e) of
        None \<Rightarrow> ([], heap e)
      | Some sel \<Rightarrow>
          (case marks sel of
             Some ms \<Rightarrow> (ms, heap e)
           | None \<Rightarrow>
               (let root = children (val e);
                    range =
                      (if Range_isCollapsed sel \<and> offset (anchor sel) = 0
                       then (case getClosestBlock root (path (anchor sel)) of
                               None \<Rightarrow> sel
                             | Some closestBlock \<Rightarrow>
                                 (case getPreviousText root (path (anchor sel)) of
                                    None \<Rightarrow> sel
                                  | Some prevText \<Rightarrow>
                                      (if Path_isAncestor (snd closestBlock) (snd prevText)
                                       then getRange root (snd prevText) else sel)))
                       else sel);
                    rs = marks_loop unionOpt (Node_texts_range root range) True (Fresh [], heap e)
                in (deref (snd rs) (fst rs), snd rs))))"

section \<open>positions\<close>

datatype Unit = UnitOffset | UnitCharacter | UnitWord | UnitLine

text \<open>
  Modelled from the spec: \<open>String.getCharacterDistance\<close> and \<open>String.getWordDistance\<close>
  (code not among the sources), "the unicode-aware character-cluster length" and "the
  unicode-aware word length (including trailing whitespace run)" at the head of the
  text. The strings here are lists of 8-bit characters, each a cluster of its own; a
  word is a run of characters other than the space.
\<close>

definition getCharacterDistance :: "string \<Rightarrow> int" where
  "getCharacterDistance s = (if s = [] then 0 else 1)"

definition getWordDistance :: "string \<Rightarrow> int" where
  "getWordDistance s =
     int (length (takeWhile (\<lambda>c. c \<noteq> CHR '' '') s)) +
     int (length (takeWhile (\<lambda>c. c = CHR '' '') (dropWhile (\<lambda>c. c \<noteq> CHR '' '') s)))"

text \<open>
  JavaScript's \<open>s.slice(b)\<close> and \<open>s.slice(0, e)\<close>: a negative index counts from the end,
  and every index is clamped to the string.
\<close>

definition js_index :: "string \<Rightarrow> int \<Rightarrow> nat" where
  "js_index s i = (if i < 0 then nat (max (int (length s) + i) 0) else nat (min i (int (length s))))"

definition slice_from :: "string \<Rightarrow> int \<Rightarrow> string" where
  "slice_from s b = drop (js_index s b) s"

definition slice_to :: "string \<Rightarrow> int \<Rightarrow> string" where
  "slice_to s e = take (js_index s e) s"

text \<open>
  Lines 195-226: the path to skip, and the jump over it. \<open>None\<close> is the \<open>break\<close>;
  otherwise the points yielded (none or one) and the value of \<open>point\<close> afterwards.
\<close>

definition skipPath_of :: "Node list \<Rightarrow> bool \<Rightarrow> Point \<Rightarrow> Path option" where
  "skipPath_of root reverse point =
     (case getFurthestVoid root (path point) of
        Some furthestVoid \<Rightarrow> Some (snd furthestVoid)
      | None \<Rightarrow>
          (case getClosestBlock root (path point) of
             Some closestBlock \<Rightarrow>
               (if (\<not> reverse \<and> isAtEndOfPath root point (snd closestBlock)) \<or>
                   (reverse \<and> isAtStartOfPath root point (snd closestBlock))
                then Some (snd closestBlock) else None)
           | None \<Rightarrow> None))"

definition skip_phase :: "Node list \<Rightarrow> bool \<Rightarrow> Point \<Rightarrow> (Point list \<times> Point) option" where
  "skip_phase root reverse point =
     (case skipPath_of root reverse point of
        None \<Rightarrow> Some ([], point)
      | Some skipPath \<Rightarrow>
          (case (if reverse then getPreviousText root skipPath else getNextText root skipPath) of
             None \<Rightarrow> None
           | Some textEntry \<Rightarrow>
               (let textOffset = (if reverse then int (length (text_of (fst textEntry))) else 0);
                    point' = point\<lparr>path := snd textEntry, offset := textOffset\<rparr>
                in Some ([point'], point'))))"

text \<open>
  Lines 228-257: the travel distance \<open>d\<close> from the path and offset the iteration began
  with, and the length of the text node there. \<open>Node.leaf\<close> and \<open>Path.relative\<close> may throw.
\<close>

definition distance :: "Node list \<Rightarrow> Unit \<Rightarrow> bool \<Rightarrow> Path \<Rightarrow> int \<Rightarrow> Error + (int \<times> int)" where
  "distance root unit reverse p off =
     (case Node_leaf root p of
        Inl err \<Rightarrow> Inl err
      | Inr node \<Rightarrow>
          (let closestBlock = getClosestBlock root p;
               rootChildren = (case closestBlock of Some cb \<Rightarrow> children_of (fst cb) | None \<Rightarrow> root);
               rootText = (case closestBlock of Some cb \<Rightarrow> Node_text (fst cb) | None \<Rightarrow> root_text root);
               rootPath = (case closestBlock of Some cb \<Rightarrow> snd cb | None \<Rightarrow> [])
           in case Path_relative p rootPath of
                Inl err \<Rightarrow> Inl err
              | Inr relPath \<Rightarrow>
                  (let relOffset = Node_offset rootChildren relPath;
                       rootOffset = relOffset + off;
                       remainingText = (if reverse then rev (slice_to rootText rootOffset)
                                        else slice_from rootText rootOffset);
                       d = (case unit of
                              UnitOffset \<Rightarrow> 1
                            | UnitCharacter \<Rightarrow> getCharacterDistance remainingText
                            | UnitWord \<Rightarrow> getWordDistance remainingText
                            | UnitLine \<Rightarrow> int (length remainingText))
                   in Inr (d, int (length (text_of node))))))"

text \<open>
  Lines 278-289: the loop over \<open>this.texts({ path, reverse })\<close>. Neither \<open>t\<close> nor \<open>d\<close>
  changes in it, and it has no \<open>break\<close>: every text node that passes the test yields.
\<close>

fun walk_texts :: "bool \<Rightarrow> int \<Rightarrow> int \<Rightarrow> (Node \<times> Path) list \<Rightarrow> Point \<Rightarrow> Point list \<times> Point" where
  "walk_texts reverse d t [] point = ([], point)"
| "walk_texts reverse d t (e # es) point =
     (let len = int (length (text_of (fst e))) in
      if t + len \<ge> d
      then (let point' = point\<lparr>path := snd e, offset := (if reverse then len - (d - t) else d - t)\<rparr>;
                r = walk_texts reverse d t es point'
            in (point' # fst r, snd r))
      else walk_texts reverse d t es point)"

text \<open>
  One pass through the body of \<open>while (true)\<close>, lines 190-289: the points it yields, in
  order, and how it leaves: by the \<open>break\<close>, to the next pass with a new \<open>point\<close>, or by
  an exception.
\<close>

datatype Step = Break | Continue Point | Throw Error

definition positions_step :: "Node list \<Rightarrow> Unit \<Rightarrow> bool \<Rightarrow> Point \<Rightarrow> Point list \<times> Step" where
  "positions_step root unit reverse point =
     (case skip_phase root reverse point of
        None \<Rightarrow> ([], Break)
      | Some (ys1, point1) \<Rightarrow>
          (case distance root unit reverse (path point) (offset point) of
             Inl err \<Rightarrow> (ys1, Throw err)
           | Inr (d, len) \<Rightarrow>
               (let newOffset = (if reverse then offset point - d else offset point + d);
                    inside = ((\<not> reverse \<and> newOffset \<le> len) \<or> (reverse \<and> newOffset \<ge> 0));
                    point2 = (if inside then point1\<lparr>offset := newOffset\<rparr> else point1);
                    ys2 = (if inside then [point2] else []);
                    t = (if reverse then offset point else len - offset point);
                    r = walk_texts reverse d t (texts_from root (path point) reverse) point2
                in (ys1 @ ys2 @ fst r, Continue (snd r)))))"

text \<open>
  The generator. The loop may run forever, so the run takes fuel: the number of passes
  through the loop body. It returns the points yielded so far and the state of the
  generator: finished, thrown, or still running.
\<close>

datatype Outcome = Finished | Thrown Error | Running

fun positions_run :: "nat \<Rightarrow> Node list \<Rightarrow> Unit \<Rightarrow> bool \<Rightarrow> Point \<Rightarrow> Point list \<times> Outcome" where
  "positions_run 0 root unit reverse point = ([], Running)"
| "positions_run (Suc n) root unit reverse point =
     (case positions_step root unit reverse point of
        (ys, Break) \<Rightarrow> (ys, Finished)
      | (ys, Throw err) \<Rightarrow> (ys, Thrown err)
      | (ys, Continue point') \<Rightarrow>
          (let r = positions_run n root unit reverse point' in (ys @ fst r, snd r)))"

text \<open>
  \<open>positions\<close>, lines 169-291. Without a point the iteration starts at the first text
  node (the end of the last one when reversed); destructuring the missing entry of a
  tree without text nodes is a \<open>TypeError\<close>.
\<close>

definition positions :: "nat \<Rightarrow> Node list \<Rightarrow> Point option \<Rightarrow> Unit \<Rightarrow> bool \<Rightarrow> Point list \<times> Outcome" where
  "positions fuel root pointOpt unit reverse =
     (case pointOpt of
        Some point \<Rightarrow> positions_run fuel root unit reverse point
      | None \<Rightarrow>
          (case Node_texts root reverse of
             [] \<Rightarrow> ([], Thrown TypeError)
           | entry # es \<Rightarrow>
               positions_run fuel root unit reverse
                 \<lparr>path = snd entry,
                  offset = (if reverse then int (length (text_of (fst entry))) else 0)\<rparr>))"

section \<open>The keyed document and the Value class (src/unnamed/part_003)\<close>

text \<open>
  The \<open>Value\<close> class works on the keyed node tree: every node carries a stable key and a
  bag of properties, a text node its string, an element its children. The document is
  the root element.
\<close>

type_synonym Key = string
type_synonym Props = "(string \<times> string) list"

datatype KNode =
    KText (node_key: Key) (node_props: Props) (node_text: string)
  | KElement (node_key: Key) (node_props: Props) (node_children: "KNode list")

text \<open>
  A point is \<open>{key, path, offset}\<close>; the path is a cache that may be null. A range is
  unset, or holds an anchor and a focus.
\<close>

record KPoint =
  pt_key :: Key
  pt_path :: "Path option"
  pt_offset :: int

datatype KRange = Unset | Points KPoint KPoint

record KValue =
  v_document :: KNode
  v_selection :: KRange
  v_annotations :: "(string \<times> KRange) list"

subsection \<open>Points and ranges\<close>

text \<open>
  Modelled from the spec: the methods of \<open>Point\<close> and \<open>Range\<close> that do not read the tree
  (section 3 and 4.3; their classes are not among the sources). \<open>moveTo(key, offset)\<close>,
  \<open>setOffset(offset)\<close> and \<open>setPath(null)\<close> are pure and return a new point. The path is
  a cache of where the key is: \<open>moveTo\<close> keeps it when the key stays the same and leaves
  it null when the point goes to another key, until it is resolved again.
  \<open>updatePoints(fn)\<close> applies \<open>fn\<close> to both anchor and focus; \<open>unset()\<close> marks the range
  inert, and an inert range stays so.
\<close>

definition moveTo :: "KPoint \<Rightarrow> Key \<Rightarrow> int \<Rightarrow> KPoint" where
  "moveTo p k off =
     \<lparr>pt_key = k, pt_path = (if k = pt_key p then pt_path p else None), pt_offset = off\<rparr>"

definition setOffset :: "KPoint \<Rightarrow> int \<Rightarrow> KPoint" where
  "setOffset p off = p\<lparr>pt_offset := off\<rparr>"

definition setPath :: "KPoint \<Rightarrow> Path option \<Rightarrow> KPoint" where
  "setPath p q = p\<lparr>pt_path := q\<rparr>"

fun isSet :: "KRange \<Rightarrow> bool" where
  "isSet Unset = False"
| "isSet (Points a f) = True"

fun updatePoints :: "(KPoint \<Rightarrow> KPoint) \<Rightarrow> KRange \<Rightarrow> KRange" where
  "updatePoints g Unset = Unset"
| "updatePoints g (Points a f) = Points (g a) (g f)"

text \<open>\<open>updatePoints\<close> with a function that may throw.\<close>

fun updatePointsE :: "(KPoint \<Rightarrow> Error + KPoint) \<Rightarrow> KRange \<Rightarrow> Error + KRange" where
  "updatePointsE g Unset = Inr Unset"
| "updatePointsE g (Points a f) =
     (case g a of
        Inl err \<Rightarrow> Inl err
      | Inr a' \<Rightarrow> (case g f of Inl err \<Rightarrow> Inl err | Inr f' \<Rightarrow> Inr (Points a' f')))"

fun moveAnchorTo :: "KRange \<Rightarrow> Key \<Rightarrow> int \<Rightarrow> KRange" where
  "moveAnchorTo Unset k off = Unset"
| "moveAnchorTo (Points a f) k off = Points (moveTo a k off) f"

fun moveFocusTo :: "KRange \<Rightarrow> Key \<Rightarrow> int \<Rightarrow> KRange" where
  "moveFocusTo Unset k off = Unset"
| "moveFocusTo (Points a f) k off = Points a (moveTo f k off)"

subsection \<open>Queries of the keyed tree\<close>

text \<open>
  Modelled from the spec: the queries the \<open>Value\<close> class calls on the document and on
  nodes (section 4.2; the node classes are not among the sources): \<open>getNode\<close>,
  \<open>assertNode\<close> (fails with \<open>NodeNotFoundError\<close>), \<open>getFirstText\<close>, \<open>getLastText\<close>,
  \<open>hasNode\<close>, \<open>getPath\<close>, and \<open>getPreviousText\<close>/\<open>getNextText\<close> by key: the text node
  next to the node with the key, outside of it, in document order.
\<close>

fun getNode :: "KNode \<Rightarrow> Path \<Rightarrow> KNode option" where
  "getNode n [] = Some n"
| "getNode (KText k d s) (i # p) = None"
| "getNode (KElement k d cs) (i # p) = (if i < length cs then getNode (cs ! i) p else None)"

definition assertNode :: "KNode \<Rightarrow> Path \<Rightarrow> Error + KNode" where
  "assertNode doc p = (case getNode doc p of None \<Rightarrow> Inl NodeNotFoundError | Some n \<Rightarrow> Inr n)"

fun ktexts :: "KNode \<Rightarrow> KNode list" where
  "ktexts (KText k d s) = [KText k d s]"
| "ktexts (KElement k d cs) = concat (map ktexts cs)"

fun all_keys :: "KNode \<Rightarrow> Key list" where
  "all_keys (KText k d s) = [k]"
| "all_keys (KElement k d cs) = k # concat (map all_keys cs)"

definition getFirstText :: "KNode \<Rightarrow> KNode option" where
  "getFirstText n = (case ktexts n of [] \<Rightarrow> None | t # ts \<Rightarrow> Some t)"

definition getLastText :: "KNode \<Rightarrow> KNode option" where
  "getLastText n = (case rev (ktexts n) of [] \<Rightarrow> None | t # ts \<Rightarrow> Some t)"

definition hasNode :: "KNode \<Rightarrow> Key \<Rightarrow> bool" where
  "hasNode n k = (k \<in> set (all_keys n))"

fun is_text :: "KNode \<Rightarrow> bool" where
  "is_text (KText k d s) = True"
| "is_text (KElement k d cs) = False"

text \<open>The path of the first node, in document order, that has the key.\<close>

fun path_node :: "Key \<Rightarrow> KNode \<Rightarrow> Path option"
  and path_list :: "Key \<Rightarrow> nat \<Rightarrow> KNode list \<Rightarrow> Path option" where
  "path_node k (KText k' d s) = (if k = k' then Some [] else None)"
| "path_node k (KElement k' d cs) = (if k = k' then Some [] else path_list k 0 cs)"
| "path_list k i [] = None"
| "path_list k i (c # cs) =
     (case path_node k c of Some p \<Rightarrow> Some (i # p) | None \<Rightarrow> path_list k (Suc i) cs)"

definition getPath :: "KNode \<Rightarrow> Key \<Rightarrow> Path option" where
  "getPath doc k = path_node k doc"

text \<open>
  The text nodes after (before) the first node with the key, in document order; \<open>None\<close>
  when no node has the key.
\<close>

fun after_node :: "Key \<Rightarrow> KNode \<Rightarrow> KNode list option"
  and after_list :: "Key \<Rightarrow> KNode list \<Rightarrow> KNode list option" where
  "after_node k (KText k' d s) = (if k = k' then Some [] else None)"
| "after_node k (KElement k' d cs) = (if k = k' then Some [] else after_list k cs)"
| "after_list k [] = None"
| "after_list k (c # cs) =
     (case after_node k c of
        Some ts \<Rightarrow> Some (ts @ concat (map ktexts cs))
      | None \<Rightarrow> after_list k cs)"

fun before_node :: "Key \<Rightarrow> KNode \<Rightarrow> KNode list option"
  and before_list :: "Key \<Rightarrow> KNode list \<Rightarrow> KNode list option" where
  "before_node k (KText k' d s) = (if k = k' then Some [] else None)"
| "before_node k (KElement k' d cs) = (if k = k' then Some [] else before_list k cs)"
| "before_list k [] = None"
| "before_list k (c # cs) =
     (case before_node k c of
        Some ts \<Rightarrow> Some ts
      | None \<Rightarrow> (case before_list k cs of None \<Rightarrow> None | Some ts \<Rightarrow> Some (ktexts c @ ts)))"

definition doc_getNextText :: "KNode \<Rightarrow> Key \<Rightarrow> KNode option" where
  "doc_getNextText doc k =
     (case after_node k doc of None \<Rightarrow> None | Some [] \<Rightarrow> None | Some (t # ts) \<Rightarrow> Some t)"

definition doc_getPreviousText :: "KNode \<Rightarrow> Key \<Rightarrow> KNode option" where
  "doc_getPreviousText doc k =
     (case before_node k doc of
        None \<Rightarrow> None
      | Some ts \<Rightarrow> (case rev ts of [] \<Rightarrow> None | t # ts' \<Rightarrow> Some t))"

text \<open>
  Modelled from the spec: \<open>document.createSelection\<close> and \<open>document.createAnnotation\<close>
  (not among the sources) hand a range to the document; each point's path cache is
  recomputed by resolving its key in the current tree (section 4.3), key and offset are
  kept.
\<close>

definition createSelection :: "KNode \<Rightarrow> KRange \<Rightarrow> KRange" where
  "createSelection doc r = updatePoints (\<lambda>p. setPath p (getPath doc (pt_key p))) r"

subsection \<open>The direction of a range\<close>

text \<open>
  Modelled from the spec: \<open>resolvePath(point)\<close> (section 4.3): a point whose path is null
  is looked up by its key in the current tree; that fails with \<open>StalePointError\<close> when no
  node has the key. \<open>start\<close> and \<open>end\<close> of a range are anchor and focus sorted into
  document order (section 3): by their resolved paths, and by offset at the same path. The
  current tree is a parameter of everything that reads the direction. \<open>moveStartTo\<close>
  and \<open>moveEndTo\<close> move the point that is the start, or the end, at the moment of the
  call.
\<close>

definition resolvePath :: "KNode \<Rightarrow> KPoint \<Rightarrow> Error + Path" where
  "resolvePath doc p =
     (case pt_path p of
        Some q \<Rightarrow> Inr q
      | None \<Rightarrow> (case getPath doc (pt_key p) of None \<Rightarrow> Inl StalePointError | Some q \<Rightarrow> Inr q))"

fun isBackward :: "KNode \<Rightarrow> KRange \<Rightarrow> Error + bool" where
  "isBackward doc Unset = Inr False"
| "isBackward doc (Points a f) =
     (case resolvePath doc a of
        Inl err \<Rightarrow> Inl err
      | Inr ap \<Rightarrow>
          (case resolvePath doc f of
             Inl err \<Rightarrow> Inl err
           | Inr fp \<Rightarrow> Inr (Path_isBefore fp ap \<or> (fp = ap \<and> pt_offset f < pt_offset a))))"

fun range_start :: "KNode \<Rightarrow> KRange \<Rightarrow> Error + KPoint option" where
  "range_start doc Unset = Inr None"
| "range_start doc (Points a f) =
     (case isBackward doc (Points a f) of
        Inl err \<Rightarrow> Inl err
      | Inr b \<Rightarrow> Inr (Some (if b then f else a)))"

fun range_end :: "KNode \<Rightarrow> KRange \<Rightarrow> Error + KPoint option" where
  "range_end doc Unset = Inr None"
| "range_end doc (Points a f) =
     (case isBackward doc (Points a f) of
        Inl err \<Rightarrow> Inl err
      | Inr b \<Rightarrow> Inr (Some (if b then a else f)))"

definition moveStartTo :: "KNode \<Rightarrow> KRange \<Rightarrow> Key \<Rightarrow> int \<Rightarrow> Error + KRange" where
  "moveStartTo doc r k off =
     (case isBackward doc r of
        Inl err \<Rightarrow> Inl err
      | Inr b \<Rightarrow> Inr (if b then moveFocusTo r k off else moveAnchorTo r k off))"

definition moveEndTo :: "KNode \<Rightarrow> KRange \<Rightarrow> Key \<Rightarrow> int \<Rightarrow> Error + KRange" where
  "moveEndTo doc r k off =
     (case isBackward doc r of
        Inl err \<Rightarrow> Inl err
      | Inr b \<Rightarrow> Inr (if b then moveAnchorTo r k off else moveFocusTo r k off))"

text \<open>
  Modelled from the spec: \<open>PathUtils.decrement\<close> (section 4.1) drops the last index by
  one; there is no such path when the index is 0.
\<close>

definition Path_decrement :: "Path \<Rightarrow> Path option" where
  "Path_decrement p =
     (if p = [] \<or> last p = 0 then None else Some (butlast p @ [last p - 1]))"

subsection \<open>Operations on the document\<close>

text \<open>
  Modelled from the spec: the structural operations of the document (the table of
  section 4.4; the node classes are not among the sources). An operation whose
  precondition fails reports \<open>NodeNotFoundError\<close> or \<open>InvalidOperationError\<close>. The key
  of the node a split creates comes from the key generator and is a parameter here.
\<close>

fun modify_node :: "(KNode \<Rightarrow> Error + KNode) \<Rightarrow> KNode \<Rightarrow> Path \<Rightarrow> Error + KNode" where
  "modify_node g n [] = g n"
| "modify_node g (KText k d s) (i # p) = Inl NodeNotFoundError"
| "modify_node g (KElement k d cs) (i # p) =
     (if i < length cs
      then (case modify_node g (cs ! i) p of
              Inl err \<Rightarrow> Inl err
            | Inr c \<Rightarrow> Inr (KElement k d (cs[i := c])))
      else Inl NodeNotFoundError)"

fun on_children :: "(KNode list \<Rightarrow> Error + KNode list) \<Rightarrow> KNode \<Rightarrow> Error + KNode" where
  "on_children h (KText k d s) = Inl NodeNotFoundError"
| "on_children h (KElement k d cs) =
     (case h cs of Inl err \<Rightarrow> Inl err | Inr cs' \<Rightarrow> Inr (KElement k d cs'))"

definition modify_children :: "(KNode list \<Rightarrow> nat \<Rightarrow> Error + KNode list) \<Rightarrow> KNode \<Rightarrow> Path \<Rightarrow> Error + KNode" where
  "modify_children h doc p =
     (if p = [] then Inl InvalidOperationError
      else modify_node (on_children (\<lambda>cs. h cs (last p))) doc (butlast p))"

definition merge_props :: "Props \<Rightarrow> Props \<Rightarrow> Props" where
  "merge_props old new = new @ filter (\<lambda>kv. fst kv \<notin> set (map fst new)) old"

definition split_children :: "int \<Rightarrow> Props \<Rightarrow> Key \<Rightarrow> KNode list \<Rightarrow> nat \<Rightarrow> Error + KNode list" where
  "split_children position props newKey cs i =
     (if i < length cs
      then (case cs ! i of
              KText k d s \<Rightarrow>
                (if 0 \<le> position \<and> position \<le> int (length s)
                 then Inr (take i cs @
                           [KText k d (take (nat position) s),
                            KText newKey (merge_props d props) (drop (nat position) s)] @
                           drop (Suc i) cs)
                 else Inl InvalidOperationError)
            | KElement k d cs' \<Rightarrow>
                (if 0 \<le> position \<and> position \<le> int (length cs')
                 then Inr (take i cs @
                           [KElement k d (take (nat position) cs'),
                            KElement newKey (merge_props d props) (drop (nat position) cs')] @
                           drop (Suc i) cs)
                 else Inl InvalidOperationError))
      else Inl NodeNotFoundError)"

definition doc_splitNode :: "KNode \<Rightarrow> Path \<Rightarrow> int \<Rightarrow> Props \<Rightarrow> Key \<Rightarrow> Error + KNode" where
  "doc_splitNode doc p position props newKey =
     modify_children (split_children position props newKey) doc p"

definition merge_children :: "KNode list \<Rightarrow> nat \<Rightarrow> Error + KNode list" where
  "merge_children cs i =
     (if i < length cs
      then (if i = 0 then Inl InvalidOperationError
            else (case (cs ! (i - 1), cs ! i) of
                    (KText k1 d1 s1, KText k2 d2 s2) \<Rightarrow>
                      Inr (take (i - 1) cs @ [KText k1 d1 (s1 @ s2)] @ drop (Suc i) cs)
                  | (KElement k1 d1 cs1, KElement k2 d2 cs2) \<Rightarrow>
                      Inr (take (i - 1) cs @ [KElement k1 d1 (cs1 @ cs2)] @ drop (Suc i) cs)
                  | (KText k1 d1 s1, KElement k2 d2 cs2) \<Rightarrow> Inl InvalidOperationError
                  | (KElement k1 d1 cs1, KText k2 d2 s2) \<Rightarrow> Inl InvalidOperationError))
      else Inl NodeNotFoundError)"

definition doc_mergeNode :: "KNode \<Rightarrow> Path \<Rightarrow> Error + KNode" where
  "doc_mergeNode doc p = modify_children merge_children doc p"

definition remove_child :: "KNode list \<Rightarrow> nat \<Rightarrow> Error + KNode list" where
  "remove_child cs i =
     (if i < length cs then Inr (take i cs @ drop (Suc i) cs) else Inl NodeNotFoundError)"

definition doc_removeNode :: "KNode \<Rightarrow> Path \<Rightarrow> Error + KNode" where
  "doc_removeNode doc p = modify_children remove_child doc p"

text \<open>An index past the last child appends.\<close>

definition insert_child :: "KNode \<Rightarrow> KNode list \<Rightarrow> nat \<Rightarrow> Error + KNode list" where
  "insert_child n cs i = Inr (take i cs @ [n] @ drop i cs)"

definition doc_insertNode :: "KNode \<Rightarrow> Path \<Rightarrow> KNode \<Rightarrow> Error + KNode" where
  "doc_insertNode doc p n = modify_children (insert_child n) doc p"

text \<open>
  \<open>moveNode(path, newPath, index)\<close>: the subtree at \<open>path\<close> leaves its parent and becomes
  child number \<open>index\<close> of the node at \<open>newPath\<close>, appended when the index is past the
  end; a destination inside the subtree itself is refused.
\<close>

definition doc_moveNode :: "KNode \<Rightarrow> Path \<Rightarrow> Path \<Rightarrow> nat \<Rightarrow> Error + KNode" where
  "doc_moveNode doc p newPath newIndex =
     (case getNode doc p of
        None \<Rightarrow> Inl NodeNotFoundError
      | Some n \<Rightarrow>
          (if Path_isPrefix p newPath then Inl InvalidOperationError
           else (case doc_removeNode doc p of
                   Inl err \<Rightarrow> Inl err
                 | Inr doc' \<Rightarrow>
                     modify_node (on_children (\<lambda>cs. insert_child n cs newIndex)) doc' newPath)))"

fun set_props :: "Props \<Rightarrow> KNode \<Rightarrow> Error + KNode" where
  "set_props props (KText k d s) = Inr (KText k (merge_props d props) s)"
| "set_props props (KElement k d cs) = Inr (KElement k (merge_props d props) cs)"

definition doc_setNode :: "KNode \<Rightarrow> Path \<Rightarrow> Props \<Rightarrow> Error + KNode" where
  "doc_setNode doc p props = modify_node (set_props props) doc p"

fun insert_text :: "int \<Rightarrow> string \<Rightarrow> KNode \<Rightarrow> Error + KNode" where
  "insert_text off str (KText k d s) =
     (if 0 \<le> off \<and> off \<le> int (length s)
      then Inr (KText k d (take (nat off) s @ str @ drop (nat off) s))
      else Inl InvalidOperationError)"
| "insert_text off str (KElement k d cs) = Inl NodeNotFoundError"

definition doc_insertText :: "KNode \<Rightarrow> Path \<Rightarrow> int \<Rightarrow> string \<Rightarrow> Error + KNode" where
  "doc_insertText doc p off str = modify_node (insert_text off str) doc p"

fun remove_text :: "int \<Rightarrow> string \<Rightarrow> KNode \<Rightarrow> Error + KNode" where
  "remove_text off str (KText k d s) =
     (if 0 \<le> off \<and> off + int (length str) \<le> int (length s) \<and>
         take (length str) (drop (nat off) s) = str
      then Inr (KText k d (take (nat off) s @ drop (nat off + length str) s))
      else Inl InvalidOperationError)"
| "remove_text off str (KElement k d cs) = Inl NodeNotFoundError"

definition doc_removeText :: "KNode \<Rightarrow> Path \<Rightarrow> int \<Rightarrow> string \<Rightarrow> Error + KNode" where
  "doc_removeText doc p off str = modify_node (remove_text off str) doc p"

subsection \<open>The Value class\<close>

text \<open>\<open>node.text\<close>: the string of a text node, the concatenated text of an element.\<close>

fun text_content :: "KNode \<Rightarrow> string" where
  "text_content (KText k d s) = s"
| "text_content (KElement k d cs) = concat (map text_content cs)"

text \<open>
  \<open>mapRanges(iterator)\<close>, lines 443-466. The iterators of this class return a range or
  throw, never a falsy value, so the \<open>unset()\<close> of line 453 and the filter of line 463
  have nothing to do. \<open>sel !== selection\<close> compares references; the ranges here are
  values, and a range equal to the old one is kept as it is.
\<close>

fun map_annotations :: "(KRange \<Rightarrow> Error + KRange) \<Rightarrow> KNode \<Rightarrow> (string \<times> KRange) list \<Rightarrow>
    Error + (string \<times> KRange) list" where
  "map_annotations iterator doc [] = Inr []"
| "map_annotations iterator doc (na # rest) =
     (case (if isSet (snd na) then iterator (snd na) else Inr (snd na)) of
        Inl err \<Rightarrow> Inl err
      | Inr n \<Rightarrow>
          (case map_annotations iterator doc rest of
             Inl err \<Rightarrow> Inl err
           | Inr ns \<Rightarrow> Inr ((fst na, if n \<noteq> snd na then createSelection doc n else n) # ns)))"

definition mapRanges :: "(KRange \<Rightarrow> Error + KRange) \<Rightarrow> KValue \<Rightarrow> Error + KValue" where
  "mapRanges iterator v =
     (case (if isSet (v_selection v) then iterator (v_selection v) else Inr (v_selection v)) of
        Inl err \<Rightarrow> Inl err
      | Inr sel \<Rightarrow>
          (case map_annotations iterator (v_document v) (v_annotations v) of
             Inl err \<Rightarrow> Inl err
           | Inr anns \<Rightarrow>
               Inr (v\<lparr>v_selection :=
                         (if sel \<noteq> v_selection v then createSelection (v_document v) sel else sel),
                       v_annotations := anns\<rparr>)))"

text \<open>\<open>mapPoints(iterator)\<close>, lines 468-475.\<close>

definition mapPoints :: "(KPoint \<Rightarrow> Error + KPoint) \<Rightarrow> KValue \<Rightarrow> Error + KValue" where
  "mapPoints iterator v = mapRanges (\<lambda>rng. updatePointsE iterator rng) v"

text \<open>\<open>mergeNode(path)\<close>, lines 477-511, and the function it maps over the ranges.\<close>

definition mergeNode_range :: "KNode option \<Rightarrow> KNode option \<Rightarrow> KRange \<Rightarrow> Error + KRange" where
  "mergeNode_range one two rng =
     (case two of
        None \<Rightarrow> Inl TypeError
      | Some t \<Rightarrow>
          (if is_text t
           then (case one of
                   None \<Rightarrow> Inl TypeError
                 | Some on \<Rightarrow>
                     (case rng of
                        Unset \<Rightarrow> Inr Unset
                      | Points a f \<Rightarrow>
                          (let mx = int (length (text_content on));
                               range1 = (if pt_key a = node_key t
                                         then moveAnchorTo rng (node_key on) (mx + pt_offset a)
                                         else rng);
                               range2 = (if pt_key f = node_key t
                                         then moveFocusTo range1 (node_key on) (mx + pt_offset f)
                                         else range1)
                           in Inr (updatePoints (\<lambda>point. setPath point None) range2))))
           else Inr (updatePoints (\<lambda>point. setPath point None) rng)))"

definition mergeNode :: "KValue \<Rightarrow> Path \<Rightarrow> Error + KValue" where
  "mergeNode v p =
     (case doc_mergeNode (v_document v) p of
        Inl err \<Rightarrow> Inl err
      | Inr newDocument \<Rightarrow>
          (let withPath = Path_decrement p;
               one = (case withPath of None \<Rightarrow> None | Some q \<Rightarrow> getNode (v_document v) q);
               two = getNode (v_document v) p
           in mapRanges (mergeNode_range one two) (v\<lparr>v_document := newDocument\<rparr>)))"

text \<open>
  \<open>splitNode(path, position, properties)\<close>, lines 513-545. \<open>start\<close> and \<open>end\<close> are read
  once, from the range as it comes in (line 527); \<open>moveStartTo\<close> and \<open>moveEndTo\<close> then
  decide on the range they are called on, which for \<open>moveEndTo\<close> is the range after the
  first move. The range is one of the value whose document is already the new one
  (line 523). \<open>next.key\<close> is read only when a point moves; without a next text node that
  is a \<open>TypeError\<close>.
\<close>

definition splitNode_range :: "KNode \<Rightarrow> KNode \<Rightarrow> int \<Rightarrow> KRange \<Rightarrow> Error + KRange" where
  "splitNode_range newDocument node position rng =
     (let nxt = doc_getNextText newDocument (node_key node) in
      case range_start newDocument rng of
        Inl err \<Rightarrow> Inl err
      | Inr None \<Rightarrow> Inr Unset
      | Inr (Some start) \<Rightarrow>
          (case range_end newDocument rng of
             Inl err \<Rightarrow> Inl err
           | Inr None \<Rightarrow> Inr Unset
           | Inr (Some end') \<Rightarrow>
               (case (if node_key node = pt_key start \<and> position \<le> pt_offset start
                      then (case nxt of
                              None \<Rightarrow> Inl TypeError
                            | Some nx \<Rightarrow>
                                moveStartTo newDocument rng (node_key nx)
                                  (pt_offset start - position))
                      else Inr rng) of
                  Inl err \<Rightarrow> Inl err
                | Inr range1 \<Rightarrow>
                    (case (if node_key node = pt_key end' \<and> position \<le> pt_offset end'
                           then (case nxt of
                                   None \<Rightarrow> Inl TypeError
                                 | Some nx \<Rightarrow>
                                     moveEndTo newDocument range1 (node_key nx)
                                       (pt_offset end' - position))
                           else Inr range1) of
                       Inl err \<Rightarrow> Inl err
                     | Inr range2 \<Rightarrow> Inr (updatePoints (\<lambda>point. setPath point None) range2)))))"

definition splitNode :: "KValue \<Rightarrow> Path \<Rightarrow> int \<Rightarrow> Props \<Rightarrow> Key \<Rightarrow> Error + KValue" where
  "splitNode v p position properties newKey =
     (case doc_splitNode (v_document v) p position properties newKey of
        Inl err \<Rightarrow> Inl err
      | Inr newDocument \<Rightarrow>
          (case assertNode (v_document v) p of
             Inl err \<Rightarrow> Inl err
           | Inr node \<Rightarrow>
               mapRanges (splitNode_range newDocument node position)
                 (v\<lparr>v_document := newDocument\<rparr>)))"

text \<open>\<open>removeNode(path)\<close>, lines 547-585.\<close>

definition relocate :: "KNode option \<Rightarrow> KNode option \<Rightarrow> (KRange \<Rightarrow> Key \<Rightarrow> int \<Rightarrow> KRange) \<Rightarrow> KRange \<Rightarrow> KRange" where
  "relocate prev nxt move rng =
     (case prev of
        Some pv \<Rightarrow> move rng (node_key pv) (int (length (text_content pv)))
      | None \<Rightarrow> (case nxt of Some nx \<Rightarrow> move rng (node_key nx) 0 | None \<Rightarrow> Unset))"

definition removeNode_range :: "KNode \<Rightarrow> KNode option \<Rightarrow> KNode option \<Rightarrow> KRange \<Rightarrow> Error + KRange" where
  "removeNode_range node prev nxt rng =
     (case rng of
        Unset \<Rightarrow> Inr Unset
      | Points a f \<Rightarrow>
          (let range1 = (if hasNode node (pt_key a) then relocate prev nxt moveAnchorTo rng
                         else rng);
               range2 = (if hasNode node (pt_key f) then relocate prev nxt moveFocusTo range1
                         else range1)
           in Inr (updatePoints (\<lambda>point. setPath point None) range2)))"

text \<open>
  Lines 556-557: \<open>first\<close> and \<open>last\<close>, the node itself when it is a text node or holds
  none.
\<close>

definition first_of :: "KNode \<Rightarrow> KNode" where
  "first_of node =
     (if is_text node then node
      else (case getFirstText node of Some t \<Rightarrow> t | None \<Rightarrow> node))"

definition last_of :: "KNode \<Rightarrow> KNode" where
  "last_of node =
     (if is_text node then node
      else (case getLastText node of Some t \<Rightarrow> t | None \<Rightarrow> node))"

definition removeNode :: "KValue \<Rightarrow> Path \<Rightarrow> Error + KValue" where
  "removeNode v p =
     (case assertNode (v_document v) p of
        Inl err \<Rightarrow> Inl err
      | Inr node \<Rightarrow>
          (let prev = doc_getPreviousText (v_document v) (node_key (first_of node));
               nxt = doc_getNextText (v_document v) (node_key (last_of node))
           in case doc_removeNode (v_document v) p of
                Inl err \<Rightarrow> Inl err
              | Inr document \<Rightarrow>
                  mapRanges (removeNode_range node prev nxt) (v\<lparr>v_document := document\<rparr>)))"

text \<open>\<open>moveNode(path, newPath, newIndex = 0)\<close>, lines 587-604.\<close>

definition moveNode :: "KValue \<Rightarrow> Path \<Rightarrow> Path \<Rightarrow> nat \<Rightarrow> Error + KValue" where
  "moveNode v p newPath newIndex =
     (if p = newPath then Inr v
      else (case doc_moveNode (v_document v) p newPath newIndex of
              Inl err \<Rightarrow> Inl err
            | Inr document \<Rightarrow>
                mapPoints (\<lambda>point. Inr (setPath point None)) (v\<lparr>v_document := document\<rparr>)))"

text \<open>\<open>removeText(path, offset, text)\<close>, lines 606-639, and its function on points.\<close>

definition removeText_point :: "KNode \<Rightarrow> int \<Rightarrow> string \<Rightarrow> KPoint \<Rightarrow> KPoint" where
  "removeText_point node off str point =
     (let len = int (length str); start = off; end' = off + len in
      if pt_key point \<noteq> node_key node then point
      else if pt_offset point \<ge> end' then setOffset point (pt_offset point - len)
      else if pt_offset point > start then setOffset point start
      else point)"

definition removeText :: "KValue \<Rightarrow> Path \<Rightarrow> int \<Rightarrow> string \<Rightarrow> Error + KValue" where
  "removeText v p off str =
     (case assertNode (v_document v) p of
        Inl err \<Rightarrow> Inl err
      | Inr node \<Rightarrow>
          (case doc_removeText (v_document v) p off str of
             Inl err \<Rightarrow> Inl err
           | Inr document \<Rightarrow>
               mapPoints (\<lambda>point. Inr (removeText_point node off str point))
                 (v\<lparr>v_document := document\<rparr>)))"

text \<open>\<open>setNode(path, properties)\<close>, lines 641-652.\<close>

definition setNode :: "KValue \<Rightarrow> Path \<Rightarrow> Props \<Rightarrow> Error + KValue" where
  "setNode v p properties =
     (case doc_setNode (v_document v) p properties of
        Inl err \<Rightarrow> Inl err
      | Inr document \<Rightarrow> Inr (v\<lparr>v_document := document\<rparr>))"

text \<open>\<open>insertNode(path, node)\<close>, lines 782-798.\<close>

definition insertNode :: "KValue \<Rightarrow> Path \<Rightarrow> KNode \<Rightarrow> Error + KValue" where
  "insertNode v p node =
     (case doc_insertNode (v_document v) p node of
        Inl err \<Rightarrow> Inl err
      | Inr document \<Rightarrow>
          mapRanges (\<lambda>rng. Inr (updatePoints (\<lambda>point. setPath point None) rng))
            (v\<lparr>v_document := document\<rparr>))"

text \<open>
  \<open>insertText(path, offset, text)\<close>, lines 800-820. \<open>point.path.equals(path)\<close> on a point
  whose path is null is a \<open>TypeError\<close>.
\<close>

definition insertText_point :: "Path \<Rightarrow> int \<Rightarrow> string \<Rightarrow> KPoint \<Rightarrow> Error + KPoint" where
  "insertText_point p off str point =
     (case pt_path point of
        None \<Rightarrow> Inl TypeError
      | Some q \<Rightarrow>
          (if q = p \<and> pt_offset point \<ge> off
           then Inr (setOffset point (pt_offset point + int (length str)))
           else Inr point))"

definition insertText :: "KValue \<Rightarrow> Path \<Rightarrow> int \<Rightarrow> string \<Rightarrow> Error + KValue" where
  "insertText v p off str =
     (case doc_insertText (v_document v) p off str of
        Inl err \<Rightarrow> Inl err
      | Inr document \<Rightarrow> mapPoints (insertText_point p off str) (v\<lparr>v_document := document\<rparr>))"

section \<open>The claims about the Value class, in the words of the spec\<close>

text \<open>
  What \<open>removeText\<close> is to do to a point \<open>pt\<close>, giving \<open>pt'\<close>, when it removes \<open>len\<close>
  characters at \<open>off\<close> from the text node with key \<open>k\<close>: at or after the end of the span
  the offset drops by \<open>len\<close>; strictly inside it is clamped to \<open>off\<close>; at or before \<open>off\<close>,
  and on other nodes, it stays. The key stays in every case.
\<close>

definition shifted_left :: "Key \<Rightarrow> int \<Rightarrow> int \<Rightarrow> KPoint \<Rightarrow> KPoint \<Rightarrow> bool" where
  "shifted_left k off len pt pt' =
     (pt_key pt' = pt_key pt \<and>
      (pt_key pt = k \<and> off + len \<le> pt_offset pt \<longrightarrow> pt_offset pt' = pt_offset pt - len) \<and>
      (pt_key pt = k \<and> off < pt_offset pt \<and> pt_offset pt < off + len \<longrightarrow> pt_offset pt' = off) \<and>
      (pt_key pt = k \<and> pt_offset pt \<le> off \<longrightarrow> pt_offset pt' = pt_offset pt) \<and>
      (pt_key pt \<noteq> k \<longrightarrow> pt_offset pt' = pt_offset pt))"

text \<open>
  What \<open>mergeNode\<close> is to do to a point when the text node \<open>two\<close> merges into \<open>one\<close>: a
  point on \<open>two\<close> moves to \<open>one\<close> with the length of \<open>one\<close>'s text added to its offset;
  any other point keeps key and offset.
\<close>

definition rebased :: "KNode \<Rightarrow> KNode \<Rightarrow> KPoint \<Rightarrow> KPoint \<Rightarrow> bool" where
  "rebased one two pt pt' =
     (if pt_key pt = node_key two
      then pt_key pt' = node_key one \<and>
           pt_offset pt' = int (length (text_content one)) + pt_offset pt
      else pt_key pt' = pt_key pt \<and> pt_offset pt' = pt_offset pt)"

text \<open>A point that keeps its key and its offset.\<close>

definition same_place :: "KPoint \<Rightarrow> KPoint \<Rightarrow> bool" where
  "same_place pt pt' = (pt_key pt' = pt_key pt \<and> pt_offset pt' = pt_offset pt)"

text \<open>
  What \<open>removeNode\<close> is to do to a point when \<open>node\<close> is removed: a point inside the
  subtree goes to the place \<open>(k, off)\<close> on the surviving neighbour; any other point
  keeps key and offset.
\<close>

definition relocated :: "KNode \<Rightarrow> Key \<Rightarrow> int \<Rightarrow> KPoint \<Rightarrow> KPoint \<Rightarrow> bool" where
  "relocated node k off pt pt' =
     (if hasNode node (pt_key pt)
      then pt_key pt' = k \<and> pt_offset pt' = off
      else pt_key pt' = pt_key pt \<and> pt_offset pt' = pt_offset pt)"

text \<open>
  The text nodes of a document that stand before, and after, the subtree at a path, in
  document order. They are told by position alone, so that together with the texts of
  the subtree they are all the texts of the document, and without them they are the
  texts that a removal of the subtree leaves.
\<close>

fun texts_before :: "KNode \<Rightarrow> Path \<Rightarrow> KNode list" where
  "texts_before n [] = []"
| "texts_before (KText k d s) (i # p) = []"
| "texts_before (KElement k d cs) (i # p) =
     concat (map ktexts (take i cs)) @ (if i < length cs then texts_before (cs ! i) p else [])"

fun texts_after :: "KNode \<Rightarrow> Path \<Rightarrow> KNode list" where
  "texts_after n [] = []"
| "texts_after (KText k d s) (i # p) = []"
| "texts_after (KElement k d cs) (i # p) =
     (if i < length cs then texts_after (cs ! i) p else []) @ concat (map ktexts (drop (Suc i) cs))"

text \<open>
  The nearest surviving text of a removed subtree, as a place: the end of the last text
  before the subtree if there is one, else the start of the first text after it, else
  none.
\<close>

definition nearest_surviving :: "KNode list \<Rightarrow> KNode list \<Rightarrow> (Key \<times> int) option" where
  "nearest_surviving bef aft =
     (if bef \<noteq> [] then Some (node_key (last bef), int (length (text_content (last bef))))
      else if aft \<noteq> [] then Some (node_key (hd aft), 0)
      else None)"

text \<open>
  What \<open>removeNode\<close> is to leave as the selection when \<open>node\<close> is removed from a document
  and \<open>doc'\<close> remains, for the selection with anchor \<open>a\<close> and focus \<open>f\<close>: with a nearest
  surviving text, that text is a text node of \<open>doc'\<close> and not a node of the removed
  subtree, and each point inside the subtree is on it, each other point where it was;
  with none, the selection is unset if a point was inside the subtree and unchanged
  otherwise.
\<close>

definition repaired :: "KNode \<Rightarrow> KNode \<Rightarrow> (Key \<times> int) option \<Rightarrow> KPoint \<Rightarrow> KPoint \<Rightarrow> KRange \<Rightarrow> bool" where
  "repaired doc' node target a f sel =
     (case target of
        Some (k, off) \<Rightarrow>
          k \<in> set (map node_key (ktexts doc')) \<and> \<not> hasNode node k \<and>
          (case sel of
             Unset \<Rightarrow> False
           | Points a' f' \<Rightarrow> relocated node k off a a' \<and> relocated node k off f f')
      | None \<Rightarrow>
          (if hasNode node (pt_key a) \<or> hasNode node (pt_key f) then sel = Unset
           else (case sel of
                   Unset \<Rightarrow> False
                 | Points a' f' \<Rightarrow> same_place a a' \<and> same_place f f')))"

text \<open>
  What \<open>splitNode\<close> is to do to a point when the text node with key \<open>k\<close> is split at
  \<open>position\<close> and the successor has the key \<open>k'\<close>: a point on the node at or after the
  position moves to the successor, its offset reduced by the position; any other point
  keeps key and offset.
\<close>

definition moved_to_successor :: "Key \<Rightarrow> int \<Rightarrow> Key \<Rightarrow> KPoint \<Rightarrow> KPoint \<Rightarrow> bool" where
  "moved_to_successor k position k' pt pt' =
     (if pt_key pt = k \<and> position \<le> pt_offset pt
      then pt_key pt' = k' \<and> pt_offset pt' = pt_offset pt - position
      else pt_key pt' = pt_key pt \<and> pt_offset pt' = pt_offset pt)"

section \<open>Sequences of operations\<close>

text \<open>
  The operations of the \<open>Value\<close> class that change the document, as data, so that a
  sequence of them can be applied. The key of the node a split creates is part of the
  operation.
\<close>

datatype Operation =
    SplitNode Path int Props Key
  | MergeNode Path
  | InsertNode Path KNode
  | RemoveNode Path
  | MoveNode Path Path nat
  | SetNode Path Props
  | InsertText Path int string
  | RemoveText Path int string

fun apply_op :: "Operation \<Rightarrow> KValue \<Rightarrow> Error + KValue" where
  "apply_op (SplitNode p position props newKey) v = splitNode v p position props newKey"
| "apply_op (MergeNode p) v = mergeNode v p"
| "apply_op (InsertNode p n) v = insertNode v p n"
| "apply_op (RemoveNode p) v = removeNode v p"
| "apply_op (MoveNode p newPath newIndex) v = moveNode v p newPath newIndex"
| "apply_op (SetNode p props) v = setNode v p props"
| "apply_op (InsertText p off str) v = insertText v p off str"
| "apply_op (RemoveText p off str) v = removeText v p off str"

text \<open>A sequence of operations stops at the first one that fails.\<close>

fun apply_ops :: "Operation list \<Rightarrow> KValue \<Rightarrow> Error + KValue" where
  "apply_ops [] v = Inr v"
| "apply_ops (op # ops) v =
     (case apply_op op v of Inl err \<Rightarrow> Inl err | Inr v' \<Rightarrow> apply_ops ops v')"

text \<open>
  Keys are unique in a document (section 3). An operation keeps them so when the keys it
  brings in are new: the key of the node a split creates, and the keys of an inserted
  subtree, which are also distinct from each other.
\<close>

definition unique_keys :: "KNode \<Rightarrow> bool" where
  "unique_keys doc = distinct (all_keys doc)"

fun fresh_keys :: "Operation \<Rightarrow> KNode \<Rightarrow> bool" where
  "fresh_keys (SplitNode p position props newKey) doc = (newKey \<notin> set (all_keys doc))"
| "fresh_keys (InsertNode p n) doc =
     (distinct (all_keys n) \<and> set (all_keys n) \<inter> set (all_keys doc) = {})"
| "fresh_keys (MergeNode p) doc = True"
| "fresh_keys (RemoveNode p) doc = True"
| "fresh_keys (MoveNode p newPath newIndex) doc = True"
| "fresh_keys (SetNode p props) doc = True"
| "fresh_keys (InsertText p off str) doc = True"
| "fresh_keys (RemoveText p off str) doc = True"

text \<open>Every operation of the sequence meets, when its turn comes, a document for which its keys are new.\<close>

fun all_fresh :: "Operation list \<Rightarrow> KValue \<Rightarrow> bool" where
  "all_fresh [] v = True"
| "all_fresh (op # ops) v =
     (fresh_keys op (v_document v) \<and>
      (case apply_op op v of Inl err \<Rightarrow> True | Inr v' \<Rightarrow> all_fresh ops v'))"

text \<open>The keys of the text nodes of a subtree, in document order.\<close>

definition text_keys :: "KNode \<Rightarrow> Key list" where
  "text_keys n = map node_key (ktexts n)"

text \<open>
  A selection that does not dangle: it is unset, or the key of its anchor and the key of
  its focus are keys of text nodes of the document.
\<close>

fun resolves :: "KNode \<Rightarrow> KRange \<Rightarrow> bool" where
  "resolves doc Unset = True"
| "resolves doc (Points a f) =
     (pt_key a \<in> set (text_keys doc) \<and> pt_key f \<in> set (text_keys doc))"

section \<open>Example values of the Value class\<close>

text \<open>
  A document of two blocks: the first holds the text nodes \<open>t1\<close> "hello" and \<open>t2\<close>
  "world", the second the text node \<open>t3\<close> "again".
\<close>

definition kdoc :: KNode where
  "kdoc =
     KElement ''doc'' []
       [KElement ''b1'' [] [KText ''t1'' [] ''hello'', KText ''t2'' [] ''world''],
        KElement ''b2'' [] [KText ''t3'' [] ''again'']]"

text \<open>The selection runs backward inside \<open>t2\<close>, from offset 4 to offset 1.\<close>

definition kanchor :: KPoint where
  "kanchor = \<lparr>pt_key = ''t2'', pt_path = Some [0, 1], pt_offset = 4\<rparr>"

definition kfocus :: KPoint where
  "kfocus = \<lparr>pt_key = ''t2'', pt_path = Some [0, 1], pt_offset = 1\<rparr>"

definition kvalue :: KValue where
  "kvalue = \<lparr>v_document = kdoc, v_selection = Points kanchor kfocus, v_annotations = []\<rparr>"

text \<open>The value after \<open>removeText([0, 1], 1, "or")\<close>.\<close>

definition kvalue_removeText :: KValue where
  "kvalue_removeText =
     \<lparr>v_document =
        KElement ''doc'' []
          [KElement ''b1'' [] [KText ''t1'' [] ''hello'', KText ''t2'' [] ''wld''],
           KElement ''b2'' [] [KText ''t3'' [] ''again'']],
      v_selection = Points \<lparr>pt_key = ''t2'', pt_path = Some [0, 1], pt_offset = 2\<rparr>
                           \<lparr>pt_key = ''t2'', pt_path = Some [0, 1], pt_offset = 1\<rparr>,
      v_annotations = []\<rparr>"

text \<open>The value after \<open>mergeNode([0, 1])\<close>, which merges the text node \<open>t2\<close> into \<open>t1\<close>.\<close>

definition kvalue_mergeText :: KValue where
  "kvalue_mergeText =
     \<lparr>v_document =
        KElement ''doc'' []
          [KElement ''b1'' [] [KText ''t1'' [] ''helloworld''],
           KElement ''b2'' [] [KText ''t3'' [] ''again'']],
      v_selection = Points \<lparr>pt_key = ''t1'', pt_path = Some [0, 0], pt_offset = 9\<rparr>
                           \<lparr>pt_key = ''t1'', pt_path = Some [0, 0], pt_offset = 6\<rparr>,
      v_annotations = []\<rparr>"

text \<open>The value after \<open>mergeNode([1])\<close>, which merges the block \<open>b2\<close> into \<open>b1\<close>.\<close>

definition kvalue_mergeBlock :: KValue where
  "kvalue_mergeBlock =
     \<lparr>v_document =
        KElement ''doc'' []
          [KElement ''b1'' []
             [KText ''t1'' [] ''hello'', KText ''t2'' [] ''world'', KText ''t3'' [] ''again'']],
      v_selection = Points kanchor kfocus,
      v_annotations = []\<rparr>"

text \<open>The value after \<open>removeNode([0, 1])\<close>: both points go to the end of \<open>t1\<close>.\<close>

definition kvalue_removeNode :: KValue where
  "kvalue_removeNode =
     \<lparr>v_document =
        KElement ''doc'' []
          [KElement ''b1'' [] [KText ''t1'' [] ''hello''],
           KElement ''b2'' [] [KText ''t3'' [] ''again'']],
      v_selection = Points \<lparr>pt_key = ''t1'', pt_path = Some [0, 0], pt_offset = 5\<rparr>
                           \<lparr>pt_key = ''t1'', pt_path = Some [0, 0], pt_offset = 5\<rparr>,
      v_annotations = []\<rparr>"

text \<open>
  The value after \<open>splitNode([0, 1], 2)\<close> with the new key \<open>t4\<close>: the anchor, at offset 4,
  goes to the successor; the focus, at offset 1, stays.
\<close>

definition kvalue_splitNode :: KValue where
  "kvalue_splitNode =
     \<lparr>v_document =
        KElement ''doc'' []
          [KElement ''b1'' []
             [KText ''t1'' [] ''hello'', KText ''t2'' [] ''wo'', KText ''t4'' [] ''rld''],
           KElement ''b2'' [] [KText ''t3'' [] ''again'']],
      v_selection = Points \<lparr>pt_key = ''t4'', pt_path = Some [0, 2], pt_offset = 2\<rparr>
                           \<lparr>pt_key = ''t2'', pt_path = Some [0, 1], pt_offset = 1\<rparr>,
      v_annotations = []\<rparr>"

text \<open>
  A selection that runs backward inside \<open>t2\<close>, from offset 4 to offset 3, and the value
  after \<open>splitNode([0, 1], 1)\<close> with the new key \<open>t4\<close>: \<open>t2\<close> keeps "w", \<open>t4\<close> holds
  "orld"; the focus is on \<open>t4\<close> at offset 3 and the anchor is still on \<open>t2\<close> at offset 4.
\<close>

definition kvalue_backward :: KValue where
  "kvalue_backward =
     \<lparr>v_document = kdoc,
      v_selection = Points \<lparr>pt_key = ''t2'', pt_path = Some [0, 1], pt_offset = 4\<rparr>
                           \<lparr>pt_key = ''t2'', pt_path = Some [0, 1], pt_offset = 3\<rparr>,
      v_annotations = []\<rparr>"

definition kvalue_backward_split :: KValue where
  "kvalue_backward_split =
     \<lparr>v_document =
        KElement ''doc'' []
          [KElement ''b1'' []
             [KText ''t1'' [] ''hello'', KText ''t2'' [] ''w'', KText ''t4'' [] ''orld''],
           KElement ''b2'' [] [KText ''t3'' [] ''again'']],
      v_selection = Points \<lparr>pt_key = ''t2'', pt_path = Some [0, 1], pt_offset = 4\<rparr>
                           \<lparr>pt_key = ''t4'', pt_path = Some [0, 2], pt_offset = 3\<rparr>,
      v_annotations = []\<rparr>"

text \<open>
  A sequence of operations on \<open>kvalue\<close> that splits \<open>t2\<close>, removes the new
  successor, merges \<open>t2\<close> into \<open>t1\<close>, removes the first block, inserts a new block,
  moves the remaining old block into it, sets its properties, and inserts and removes a
  character; and the value it arrives at.
\<close>

definition kops :: "Operation list" where
  "kops =
     [SplitNode [0, 1] 2 [] ''t4'', RemoveNode [0, 2], MergeNode [0, 1], RemoveNode [0],
      InsertNode [0] (KElement ''b9'' [] [KText ''t9'' [] ''new'']), MoveNode [1] [0] 0,
      SetNode [0] [(''type'', ''quote'')], InsertText [0, 0, 0] 0 ''x'',
      RemoveText [0, 0, 0] 0 ''x'']"

definition kvalue_kops :: KValue where
  "kvalue_kops =
     \<lparr>v_document =
        KElement ''doc'' []
          [KElement ''b9'' [(''type'', ''quote'')]
             [KElement ''b2'' [] [KText ''t3'' [] ''again''], KText ''t9'' [] ''new'']],
      v_selection =
        Points \<lparr>pt_key = ''t3'', pt_path = Some [0, 0, 0], pt_offset = 0\<rparr>
               \<lparr>pt_key = ''t3'', pt_path = Some [0, 0, 0], pt_offset = 0\<rparr>,
      v_annotations = []\<rparr>"

section \<open>Example values\<close>

text \<open>
  One block with two text nodes, the first marked \<open>A\<close>, \<open>B\<close> and the second \<open>B\<close>, \<open>C\<close>;
  the selection runs from the start of the first to the end of the second and carries
  no marks of its own.
\<close>

definition marks_heap :: store where
  "marks_heap = (\<lambda>a. []) (0 := [''A'', ''B''], 1 := [''B'', ''C''])"

definition marks_editor :: Editor where
  "marks_editor =
     \<lparr>val = \<lparr>children = [Element False False [Text ''x'' 0, Text ''y'' 1]],
             selection = Some \<lparr>anchor = \<lparr>path = [0, 0], offset = 0\<rparr>,
                               focus = \<lparr>path = [0, 1], offset = 1\<rparr>,
                               marks = None\<rparr>\<rparr>,
      heap = marks_heap\<rparr>"

text \<open>An editor without a selection.\<close>

definition unset_editor :: Editor where
  "unset_editor =
     \<lparr>val = \<lparr>children = [Element False False [Text ''x'' 0, Text ''y'' 1]], selection = None\<rparr>,
      heap = marks_heap\<rparr>"

text \<open>The document \<open>[Text("a"), Void, Text("b")]\<close>; the void element holds one empty text node.\<close>

definition void_doc :: "Node list" where
  "void_doc = [Text ''a'' 0, Element False True [Text [] 1], Text ''b'' 2]"

text \<open>The same three nodes inside one block, the void element inline.\<close>

definition void_block_doc :: "Node list" where
  "void_block_doc =
     [Element False False [Text ''a'' 0, Element True True [Text [] 1], Text ''b'' 2]]"

text \<open>An empty block followed by a block with the text \<open>ab\<close>.\<close>

definition empty_first_doc :: "Node list" where
  "empty_first_doc = [Element False False [Text [] 0], Element False False [Text ''ab'' 1]]"

text \<open>Two blocks with one text node each.\<close>

definition two_blocks_doc :: "Node list" where
  "two_blocks_doc = [Element False False [Text ''ab'' 0], Element False False [Text ''cd'' 1]]"

section \<open>Properties of getActiveMarks\<close>

text \<open>
  The test of the union branch asks whether the mark of the current node is among the
  marks of the current node. It always is, so the branch pushes nothing: the loop leaves
  the result and the store as they were.
\<close>

lemma union_loop_id: "union_loop i m rs = rs"
proof (induction i m rs rule: union_loop.induct)
  case (1 i m rs)
  show ?case
  proof (cases "i < length (snd rs m)")
    case True
    then have "Mark_exists (snd rs m ! i) (snd rs m)"
      by (simp add: Mark_exists_def)
    with True 1 show ?thesis
      by (subst union_loop.simps) simp
  next
    case False
    then show ?thesis
      by (subst union_loop.simps) simp
  qed
qed

text \<open>
  Claim C1. On a range over two text nodes with the marks \<open>{A, B}\<close> and \<open>{B, C}\<close> and no
  marks on the selection, \<open>getActiveMarks({union: true})\<close> should return \<open>{A, B, C}\<close> and
  \<open>getActiveMarks({union: false})\<close> should return \<open>{B}\<close>. The code returns \<open>[A, B]\<close> for the
  union: \<open>C\<close> is missing. The intersection is \<open>[B]\<close> as claimed.
\<close>

theorem getActiveMarks_union_misses_mark:
  "fst (getActiveMarks marks_editor True) = [''A'', ''B''] \<and>
   fst (getActiveMarks marks_editor False) = [''B'']"
  by code_simp

text \<open>
  Claim C5. \<open>getActiveMarks\<close> should leave every text node's marks unchanged. After the
  call with \<open>union: false\<close> on the value above, the marks array of the first text node,
  which held \<open>[A, B]\<close>, holds \<open>[B]\<close>: \<open>result\<close> names that array and \<open>splice\<close> cut it.
\<close>

theorem getActiveMarks_splices_first_node:
  "heap marks_editor 0 = [''A'', ''B''] \<and>
   snd (getActiveMarks marks_editor False) 0 = [''B'']"
  by code_simp

text \<open>
  Claim C9. When the selection is unset (null), \<open>getActiveMarks\<close> returns the empty list
  for both values of the union option, and the store is untouched; the function has no
  error result.
\<close>

theorem getActiveMarks_unset:
  "selection (val e) = None \<Longrightarrow> getActiveMarks e unionOpt = ([], heap e)"
  by (simp add: getActiveMarks_def)

theorem getActiveMarks_unset_witness:
  "selection (val unset_editor) = None \<and>
   getActiveMarks unset_editor True = ([], heap unset_editor) \<and>
   getActiveMarks unset_editor False = ([], heap unset_editor)"
proof -
  have h: "selection (val unset_editor) = None"
    by (simp add: unset_editor_def)
  show ?thesis
    using h getActiveMarks_unset [OF h, of True] getActiveMarks_unset [OF h, of False]
    by simp
qed

section \<open>Properties of positions\<close>

text \<open>
  More fuel only extends what the generator has yielded: a run with fuel is a prefix of
  every longer run.
\<close>

lemma positions_run_extends:
  "\<exists>zs. fst (positions_run (n + k) root unit reverse point) =
        fst (positions_run n root unit reverse point) @ zs"
proof (induction n arbitrary: point)
  case 0
  then show ?case by simp
next
  case (Suc n)
  obtain ys st where step: "positions_step root unit reverse point = (ys, st)"
    by (cases "positions_step root unit reverse point")
  show ?case
  proof (cases st)
    case Break
    with step show ?thesis by simp
  next
    case (Throw err)
    with step show ?thesis by simp
  next
    case (Continue point')
    from Suc.IH [of point'] obtain zs where
      "fst (positions_run (n + k) root unit reverse point') =
       fst (positions_run n root unit reverse point') @ zs" ..
    with step Continue show ?thesis by (simp add: Let_def)
  qed
qed

text \<open>
  Claim C2. Over \<open>[Text("a"), Void, Text("b")]\<close>, from the start of the first text and by
  character, \<open>positions\<close> should yield exactly three points and none inside the void
  element. After two passes of its loop the code has yielded four points, the second of
  them, \<open>[1, 0]\<close> offset 0, on the text node inside the void element, and it has not
  finished.
\<close>

theorem positions_void_doc_yields:
  "positions 2 void_doc (Some \<lparr>path = [0], offset = 0\<rparr>) UnitCharacter False =
     ([\<lparr>path = [0], offset = 1\<rparr>, \<lparr>path = [1, 0], offset = 0\<rparr>,
       \<lparr>path = [2], offset = 0\<rparr>, \<lparr>path = [2], offset = 1\<rparr>], Running)"
  by code_simp

text \<open>With the three nodes inside a block the run ends, after the same four points.\<close>

lemma positions_void_block_doc_yields:
  "positions 3 void_block_doc (Some \<lparr>path = [0, 0], offset = 0\<rparr>) UnitCharacter False =
     ([\<lparr>path = [0, 0], offset = 1\<rparr>, \<lparr>path = [0, 1, 0], offset = 0\<rparr>,
       \<lparr>path = [0, 2], offset = 0\<rparr>, \<lparr>path = [0, 2], offset = 1\<rparr>], Finished)"
  by code_simp

text \<open>
  Claim C3. The sequence of \<open>positions\<close> should be finite, end when no text node is left
  in the direction, and never repeat a position. By line, from the start of a document
  whose first block is empty, the first pass of the loop yields the start of the second
  block three times.
\<close>

theorem positions_repeats_position:
  "positions 1 empty_first_doc None UnitLine False =
     ([\<lparr>path = [1, 0], offset = 0\<rparr>, \<lparr>path = [1, 0], offset = 0\<rparr>,
       \<lparr>path = [1, 0], offset = 0\<rparr>], Running)"
  by code_simp

text \<open>
  A text node outside of any block has no block end to stop at: from the end of the last
  text node of \<open>void_doc\<close>, by offset, a pass yields nothing and leaves the point where it
  was, so the generator never finishes.
\<close>

lemma positions_step_stuck:
  "positions_step void_doc UnitOffset False \<lparr>path = [2], offset = 1\<rparr> =
     ([], Continue \<lparr>path = [2], offset = 1\<rparr>)"
  by code_simp

lemma positions_never_finishes:
  "positions_run n void_doc UnitOffset False \<lparr>path = [2], offset = 1\<rparr> = ([], Running)"
  by (induction n) (simp_all add: positions_step_stuck)

text \<open>
  By offset over two blocks, from the start of the document, the second point yielded
  has the offset -1.
\<close>

lemma positions_negative_offset:
  "positions 5 two_blocks_doc None UnitOffset False =
     ([\<lparr>path = [0, 0], offset = 1\<rparr>, \<lparr>path = [1, 0], offset = - 1\<rparr>,
       \<lparr>path = [1, 0], offset = 0\<rparr>, \<lparr>path = [1, 0], offset = 1\<rparr>,
       \<lparr>path = [1, 0], offset = 2\<rparr>], Finished)"
  by code_simp

section \<open>Properties of the Value class\<close>

subsection \<open>What mapRanges leaves as the selection\<close>

lemma createSelection_Points:
  "createSelection doc (Points a f) =
     Points (a\<lparr>pt_path := getPath doc (pt_key a)\<rparr>) (f\<lparr>pt_path := getPath doc (pt_key f)\<rparr>)"
  by (simp add: createSelection_def setPath_def)

lemma createSelection_Unset: "createSelection doc Unset = Unset"
  by (simp add: createSelection_def)

lemma mapRanges_selection:
  assumes "mapRanges iterator v = Inr v'" and "v_selection v = Points a f"
  shows "\<exists>sel. iterator (Points a f) = Inr sel \<and>
           (v_selection v' = sel \<or> v_selection v' = createSelection (v_document v) sel) \<and>
           v_document v' = v_document v"
  using assms
  by (auto simp: mapRanges_def split: sum.splits if_splits)

text \<open>Handing the range to the document changes no key and no offset.\<close>

lemma selection_cases:
  assumes "v_selection v' = sel \<or> v_selection v' = createSelection doc sel"
  shows "(sel = Unset \<and> v_selection v' = Unset) \<or>
         (\<exists>A F a' f'. sel = Points A F \<and> v_selection v' = Points a' f' \<and>
            pt_key a' = pt_key A \<and> pt_offset a' = pt_offset A \<and>
            pt_key f' = pt_key F \<and> pt_offset f' = pt_offset F)"
  using assms
  by (cases sel) (auto simp: createSelection_Points createSelection_Unset)

lemma shifted_left_cong:
  "shifted_left k off len q A \<Longrightarrow> pt_key a' = pt_key A \<Longrightarrow> pt_offset a' = pt_offset A \<Longrightarrow>
   shifted_left k off len q a'"
  by (simp add: shifted_left_def)

lemma rebased_cong:
  "rebased one two q A \<Longrightarrow> pt_key a' = pt_key A \<Longrightarrow> pt_offset a' = pt_offset A \<Longrightarrow>
   rebased one two q a'"
  by (simp add: rebased_def)

lemma relocated_cong:
  "relocated node k off q A \<Longrightarrow> pt_key a' = pt_key A \<Longrightarrow> pt_offset a' = pt_offset A \<Longrightarrow>
   relocated node k off q a'"
  by (simp add: relocated_def)

lemma moved_to_successor_cong:
  "moved_to_successor k pos k' q A \<Longrightarrow> pt_key a' = pt_key A \<Longrightarrow> pt_offset a' = pt_offset A \<Longrightarrow>
   moved_to_successor k pos k' q a'"
  by (simp add: moved_to_successor_def)

subsection \<open>removeText\<close>

lemma removeText_point_shifted:
  "shifted_left (node_key node) off (int (length str)) q (removeText_point node off str q)"
proof -
  define len where "len = int (length str)"
  have "0 \<le> len" by (simp add: len_def)
  then have "shifted_left (node_key node) off len q
     (if pt_key q \<noteq> node_key node then q
      else if pt_offset q \<ge> off + len then setOffset q (pt_offset q - len)
      else if pt_offset q > off then setOffset q off
      else q)"
    by (auto simp: shifted_left_def setOffset_def)
  then show ?thesis
    unfolding removeText_point_def Let_def len_def .
qed

text \<open>
  Claim C8. \<open>removeText(path, offset, text)\<close> on the text node at the path: a point of the
  selection on that node at or after the end of the removed span has its offset reduced
  by the length of the text, a point strictly inside the span is clamped to the offset,
  and points on that node at or before the offset and points on other nodes keep their
  offset; no point changes its key.
\<close>

theorem removeText_points:
  assumes "removeText v p off str = Inr v'"
    and "v_selection v = Points a f"
    and "getNode (v_document v) p = Some node"
  shows "\<exists>a' f'. v_selection v' = Points a' f' \<and>
           shifted_left (node_key node) off (int (length str)) a a' \<and>
           shifted_left (node_key node) off (int (length str)) f f'"
proof -
  from assms(1,3) obtain doc' where
    m: "mapPoints (\<lambda>point. Inr (removeText_point node off str point)) (v\<lparr>v_document := doc'\<rparr>) = Inr v'"
    by (auto simp: removeText_def assertNode_def split: sum.splits)
  from mapRanges_selection [OF m [unfolded mapPoints_def]] assms(2)
  have "v_selection v' = Points (removeText_point node off str a) (removeText_point node off str f) \<or>
        v_selection v' = createSelection doc'
          (Points (removeText_point node off str a) (removeText_point node off str f))"
    by auto
  from selection_cases [OF this] obtain a' f' where
    "v_selection v' = Points a' f'"
    "pt_key a' = pt_key (removeText_point node off str a)"
    "pt_offset a' = pt_offset (removeText_point node off str a)"
    "pt_key f' = pt_key (removeText_point node off str f)"
    "pt_offset f' = pt_offset (removeText_point node off str f)"
    by auto
  then show ?thesis
    using shifted_left_cong [OF removeText_point_shifted] by blast
qed

theorem removeText_points_witness:
  "removeText kvalue [0, 1] 1 ''or'' = Inr kvalue_removeText \<and>
   v_selection kvalue = Points kanchor kfocus \<and>
   getNode (v_document kvalue) [0, 1] = Some (KText ''t2'' [] ''world'') \<and>
   (\<exists>a' f'. v_selection kvalue_removeText = Points a' f' \<and>
      shifted_left (node_key (KText ''t2'' [] ''world'')) 1 (int (length ''or'')) kanchor a' \<and>
      shifted_left (node_key (KText ''t2'' [] ''world'')) 1 (int (length ''or'')) kfocus f')"
proof -
  have h1: "removeText kvalue [0, 1] 1 ''or'' = Inr kvalue_removeText"
    by code_simp
  have h2: "v_selection kvalue = Points kanchor kfocus"
    by (simp add: kvalue_def)
  have h3: "getNode (v_document kvalue) [0, 1] = Some (KText ''t2'' [] ''world'')"
    by code_simp
  from removeText_points [OF h1 h2 h3] h1 h2 h3 show ?thesis
    by blast
qed

subsection \<open>mergeNode\<close>

lemma mergeNode_range_text:
  assumes "is_text two"
  shows "\<exists>A F. mergeNode_range (Some one) (Some two) (Points a f) = Inr (Points A F) \<and>
           rebased one two a A \<and> rebased one two f F \<and> pt_path A = None \<and> pt_path F = None"
  using assms
  by (simp add: mergeNode_range_def Let_def setPath_def rebased_def moveTo_def)

lemma mergeNode_range_element:
  assumes "\<not> is_text two"
  shows "mergeNode_range one (Some two) (Points a f) =
           Inr (Points (a\<lparr>pt_path := None\<rparr>) (f\<lparr>pt_path := None\<rparr>))"
  using assms
  by (simp add: mergeNode_range_def setPath_def)

text \<open>
  Claim C10. \<open>mergeNode(path)\<close> re-bases the offsets of the selection's points, adding the
  length of the predecessor's text, only when the node merged is a text node. When it is
  not, the function mapped over the ranges only sets the paths to null, and the points
  of the resulting selection have the keys and offsets they had.
\<close>

theorem mergeNode_points:
  assumes "mergeNode v p = Inr v'"
    and "v_selection v = Points a f"
  shows "\<exists>two a' f'. getNode (v_document v) p = Some two \<and> v_selection v' = Points a' f' \<and>
           (if is_text two
            then (\<exists>q one. Path_decrement p = Some q \<and> getNode (v_document v) q = Some one \<and>
                    rebased one two a a' \<and> rebased one two f f')
            else same_place a a' \<and> same_place f f' \<and>
                 mergeNode_range None (Some two) (Points a f) =
                   Inr (Points (a\<lparr>pt_path := None\<rparr>) (f\<lparr>pt_path := None\<rparr>)))"
proof -
  define one where
    "one = (case Path_decrement p of None \<Rightarrow> None | Some q \<Rightarrow> getNode (v_document v) q)"
  from assms(1) obtain doc' where
    m: "mapRanges (mergeNode_range one (getNode (v_document v) p)) (v\<lparr>v_document := doc'\<rparr>) = Inr v'"
    by (auto simp: mergeNode_def Let_def one_def split: sum.splits)
  from mapRanges_selection [OF m] assms(2) obtain sel where
    it: "mergeNode_range one (getNode (v_document v) p) (Points a f) = Inr sel"
    and sel: "v_selection v' = sel \<or> v_selection v' = createSelection doc' sel"
    by auto
  from it obtain two where two: "getNode (v_document v) p = Some two"
    by (auto simp: mergeNode_range_def split: option.splits)
  show ?thesis
  proof (cases "is_text two")
    case True
    with it two obtain on where on: "one = Some on"
      by (auto simp: mergeNode_range_def split: option.splits)
    then obtain q where q: "Path_decrement p = Some q" "getNode (v_document v) q = Some on"
      by (auto simp: one_def split: option.splits)
    from mergeNode_range_text [OF True, of on a f] it two on obtain A F where
      AF: "sel = Points A F" "rebased on two a A" "rebased on two f F"
      by auto
    from selection_cases [OF sel] AF(1) obtain a' f' where
      "v_selection v' = Points a' f'" "pt_key a' = pt_key A" "pt_offset a' = pt_offset A"
      "pt_key f' = pt_key F" "pt_offset f' = pt_offset F"
      by auto
    with AF(2,3) have "v_selection v' = Points a' f' \<and> rebased on two a a' \<and> rebased on two f f'"
      by (auto intro: rebased_cong)
    with two True q show ?thesis by auto
  next
    case False
    from mergeNode_range_element [OF False] it two
    have s: "sel = Points (a\<lparr>pt_path := None\<rparr>) (f\<lparr>pt_path := None\<rparr>)"
      by simp
    from selection_cases [OF sel] s obtain a' f' where
      "v_selection v' = Points a' f'" "pt_key a' = pt_key a" "pt_offset a' = pt_offset a"
      "pt_key f' = pt_key f" "pt_offset f' = pt_offset f"
      by auto
    then have "v_selection v' = Points a' f' \<and> same_place a a' \<and> same_place f f'"
      by (simp add: same_place_def)
    with two False mergeNode_range_element [OF False] show ?thesis by auto
  qed
qed

text \<open>
  The witness merges the block \<open>b2\<close> into \<open>b1\<close>, a node that is not a text node; the
  lemma after it merges the text node \<open>t2\<close> into \<open>t1\<close>, which moves both points to \<open>t1\<close>
  and adds 5 to their offsets.
\<close>

theorem mergeNode_points_witness:
  "mergeNode kvalue [1] = Inr kvalue_mergeBlock \<and>
   v_selection kvalue = Points kanchor kfocus \<and>
   (\<exists>two a' f'. getNode (v_document kvalue) [1] = Some two \<and>
      v_selection kvalue_mergeBlock = Points a' f' \<and>
      (if is_text two
       then (\<exists>q one. Path_decrement [1] = Some q \<and> getNode (v_document kvalue) q = Some one \<and>
               rebased one two kanchor a' \<and> rebased one two kfocus f')
       else same_place kanchor a' \<and> same_place kfocus f' \<and>
            mergeNode_range None (Some two) (Points kanchor kfocus) =
              Inr (Points (kanchor\<lparr>pt_path := None\<rparr>) (kfocus\<lparr>pt_path := None\<rparr>))))"
proof -
  have h1: "mergeNode kvalue [1] = Inr kvalue_mergeBlock"
    by code_simp
  have h2: "v_selection kvalue = Points kanchor kfocus"
    by (simp add: kvalue_def)
  from mergeNode_points [OF h1 h2] h1 h2 show ?thesis
    by blast
qed

lemma mergeNode_text_example: "mergeNode kvalue [0, 1] = Inr kvalue_mergeText"
  by code_simp

subsection \<open>removeNode\<close>

lemma removeNode_range_prev:
  "\<exists>A F. removeNode_range node (Some pv) nxt (Points a f) = Inr (Points A F) \<and>
     relocated node (node_key pv) (int (length (text_content pv))) a A \<and>
     relocated node (node_key pv) (int (length (text_content pv))) f F"
  by (simp add: removeNode_range_def relocate_def relocated_def Let_def setPath_def moveTo_def)

lemma removeNode_range_next:
  "\<exists>A F. removeNode_range node None (Some nx) (Points a f) = Inr (Points A F) \<and>
     relocated node (node_key nx) 0 a A \<and> relocated node (node_key nx) 0 f F"
  by (simp add: removeNode_range_def relocate_def relocated_def Let_def setPath_def moveTo_def)

lemma removeNode_range_none:
  "removeNode_range node None None (Points a f) =
     (if hasNode node (pt_key a) \<or> hasNode node (pt_key f) then Inr Unset
      else Inr (Points (a\<lparr>pt_path := None\<rparr>) (f\<lparr>pt_path := None\<rparr>)))"
  by (simp add: removeNode_range_def relocate_def Let_def setPath_def)

text \<open>
  The selection after \<open>removeNode(path)\<close>, in terms of the previous and the next text
  that the method computes (lines 556-559): each point of the selection, anchor and focus
  on their own, whose key lies inside the removed subtree goes to the end of the previous
  text when there is one, else to offset 0 of the next text, else the range becomes
  unset; a point outside the subtree keeps key and offset.
\<close>

lemma removeNode_selection:
  assumes "removeNode v p = Inr v'"
    and "v_selection v = Points a f"
    and "getNode (v_document v) p = Some node"
  shows "case doc_getPreviousText (v_document v) (node_key (first_of node)) of
           Some pv \<Rightarrow>
             (\<exists>a' f'. v_selection v' = Points a' f' \<and>
                relocated node (node_key pv) (int (length (text_content pv))) a a' \<and>
                relocated node (node_key pv) (int (length (text_content pv))) f f')
         | None \<Rightarrow>
             (case doc_getNextText (v_document v) (node_key (last_of node)) of
                Some nx \<Rightarrow>
                  (\<exists>a' f'. v_selection v' = Points a' f' \<and>
                     relocated node (node_key nx) 0 a a' \<and> relocated node (node_key nx) 0 f f')
              | None \<Rightarrow>
                  (if hasNode node (pt_key a) \<or> hasNode node (pt_key f)
                   then v_selection v' = Unset
                   else (\<exists>a' f'. v_selection v' = Points a' f' \<and>
                           same_place a a' \<and> same_place f f')))"
proof -
  define prev where "prev = doc_getPreviousText (v_document v) (node_key (first_of node))"
  define nxt where "nxt = doc_getNextText (v_document v) (node_key (last_of node))"
  from assms(1,3) obtain doc' where
    m: "mapRanges (removeNode_range node prev nxt) (v\<lparr>v_document := doc'\<rparr>) = Inr v'"
    by (auto simp: removeNode_def assertNode_def Let_def prev_def nxt_def split: sum.splits)
  from mapRanges_selection [OF m] assms(2) obtain sel where
    it: "removeNode_range node prev nxt (Points a f) = Inr sel"
    and sel: "v_selection v' = sel \<or> v_selection v' = createSelection doc' sel"
    by auto
  note sc = selection_cases [OF sel]
  show ?thesis
  proof (cases prev)
    case (Some pv)
    from removeNode_range_prev [of node pv nxt a f] it Some sc
    have "\<exists>a' f'. v_selection v' = Points a' f' \<and>
                relocated node (node_key pv) (int (length (text_content pv))) a a' \<and>
                relocated node (node_key pv) (int (length (text_content pv))) f f'"
      by (auto intro: relocated_cong)
    with Some show ?thesis by (simp add: prev_def)
  next
    case None
    note noprev = None
    show ?thesis
    proof (cases nxt)
      case (Some nx)
      from removeNode_range_next [of node nx a f] it Some noprev sc
      have "\<exists>a' f'. v_selection v' = Points a' f' \<and>
                relocated node (node_key nx) 0 a a' \<and> relocated node (node_key nx) 0 f f'"
        by (auto intro: relocated_cong)
      with Some noprev show ?thesis by (simp add: prev_def nxt_def)
    next
      case None
      from it noprev None sc
      have "if hasNode node (pt_key a) \<or> hasNode node (pt_key f)
                   then v_selection v' = Unset
                   else (\<exists>a' f'. v_selection v' = Points a' f' \<and>
                           same_place a a' \<and> same_place f f')"
        by (auto simp: removeNode_range_none same_place_def split: if_splits)
      with None noprev show ?thesis by (simp add: prev_def nxt_def)
    qed
  qed
qed

subsection \<open>splitNode\<close>

text \<open>
  The keys below a node are among the keys of its ancestors, and a key that is nowhere in
  a subtree is not found there.
\<close>

lemma all_keys_getNode:
  "getNode n p = Some m \<Longrightarrow> set (all_keys m) \<subseteq> set (all_keys n)"
proof (induction n p rule: getNode.induct)
  case (3 k d cs i p)
  then have i: "i < length cs" and g: "getNode (cs ! i) p = Some m"
    by (auto split: if_splits)
  from 3(1) [OF i g] have "set (all_keys m) \<subseteq> set (all_keys (cs ! i))" .
  moreover from i have "cs ! i \<in> set cs" by simp
  ultimately show ?case by auto
qed simp_all

lemma after_none:
  "k \<notin> set (all_keys n) \<Longrightarrow> after_node k n = None"
  "(\<forall>c \<in> set cs. k \<notin> set (all_keys c)) \<Longrightarrow> after_list k cs = None"
  by (induction k n and k cs rule: after_node_after_list.induct) auto

lemma after_list_append:
  "after_list k (xs @ ys) =
     (case after_list k xs of
        Some ts \<Rightarrow> Some (ts @ concat (map ktexts ys))
      | None \<Rightarrow> after_list k ys)"
  by (induction xs) (auto split: option.splits)


lemma all_keys_split:
  assumes "i < length cs"
  shows "concat (map all_keys cs) =
         concat (map all_keys (take i cs)) @ all_keys (cs ! i) @ concat (map all_keys (drop (Suc i) cs))"
proof -
  have "concat (map all_keys cs) = concat (map all_keys (take i cs @ cs ! i # drop (Suc i) cs))"
    using id_take_nth_drop [OF assms] by simp
  then show ?thesis by simp
qed

lemma distinct_child:
  assumes "distinct (all_keys (KElement kd dd cs))" and "i < length cs"
  shows "distinct (all_keys (cs ! i))"
    and "kd \<notin> set (all_keys (cs ! i))"
    and "\<forall>c \<in> set (take i cs). set (all_keys c) \<inter> set (all_keys (cs ! i)) = {}"
    and "\<forall>c \<in> set (drop (Suc i) cs). set (all_keys c) \<inter> set (all_keys (cs ! i)) = {}"
proof -
  from assms(1) have d: "distinct (concat (map all_keys cs))" and kd: "kd \<notin> set (concat (map all_keys cs))"
    by simp_all
  from d have d': "distinct (concat (map all_keys (take i cs)) @ all_keys (cs ! i) @
      concat (map all_keys (drop (Suc i) cs)))"
    by (simp only: all_keys_split [OF assms(2), symmetric])
  from d' show "distinct (all_keys (cs ! i))" by simp
  from kd show "kd \<notin> set (all_keys (cs ! i))"
    by (simp only: all_keys_split [OF assms(2)]) simp
  from d' show "\<forall>c \<in> set (take i cs). set (all_keys c) \<inter> set (all_keys (cs ! i)) = {}"
    by auto
  from d' show "\<forall>c \<in> set (drop (Suc i) cs). set (all_keys c) \<inter> set (all_keys (cs ! i)) = {}"
    by auto
qed


lemma modify_children_Cons:
  "modify_children h (KElement kd dd cs) (i # j # r) =
     (if i < length cs
      then (case modify_children h (cs ! i) (j # r) of
              Inl err \<Rightarrow> Inl err
            | Inr c \<Rightarrow> Inr (KElement kd dd (cs[i := c])))
      else Inl NodeNotFoundError)"
  by (simp add: modify_children_def)

lemma modify_children_single:
  "modify_children h (KElement kd dd cs) [i] =
     (case h cs i of Inl err \<Rightarrow> Inl err | Inr cs' \<Rightarrow> Inr (KElement kd dd cs'))"
  by (simp add: modify_children_def)

lemma split_children_text:
  assumes "split_children position props k' cs i = Inr cs'" and "i < length cs"
    and "cs ! i = KText k d s"
  shows "0 \<le> position \<and> position \<le> int (length s) \<and>
         cs' = take i cs @ [KText k d (take (nat position) s),
              KText k' (merge_props d props) (drop (nat position) s)] @ drop (Suc i) cs"
  using assms
  by (simp add: split_children_def split: if_splits)


text \<open>
  After a text node with key \<open>k\<close> is split, in a document with unique keys, the text node
  next to \<open>k\<close> in the new document is the new node.
\<close>

lemma split_next:
  assumes "doc_splitNode doc p position props k' = Inr doc'"
    and "getNode doc p = Some (KText k d s)"
    and "distinct (all_keys doc)"
  shows "0 \<le> position \<and> position \<le> int (length s) \<and>
         (\<exists>ts. after_node k doc' =
            Some (KText k' (merge_props d props) (drop (nat position) s) # ts))"
  using assms
proof (induction p arbitrary: doc doc')
  case Nil
  then show ?case by (simp add: doc_splitNode_def modify_children_def)
next
  case (Cons i q)
  from Cons.prems(2) obtain kd dd cs where doc: "doc = KElement kd dd cs"
    by (cases doc) auto
  from Cons.prems(2) doc have i: "i < length cs" and g: "getNode (cs ! i) q = Some (KText k d s)"
    by (auto split: if_splits)
  note dc = distinct_child [OF Cons.prems(3) [unfolded doc] i]
  from all_keys_getNode [OF g] have kin: "k \<in> set (all_keys (cs ! i))" by simp
  with dc(2) have kkd: "k \<noteq> kd" by auto
  from kin dc(3) have before: "\<forall>c \<in> set (take i cs). k \<notin> set (all_keys c)" by auto
  show ?case
  proof (cases q)
    case Nil
    with g have ci: "cs ! i = KText k d s" by simp
    from Cons.prems(1) doc Nil obtain cs' where
      sc: "split_children position props k' cs i = Inr cs'" and doc': "doc' = KElement kd dd cs'"
      by (auto simp: doc_splitNode_def modify_children_single split: sum.splits)
    note st = split_children_text [OF sc i ci]
    from st doc' kkd after_none(2) [OF before] show ?thesis
      by (simp add: after_list_append)
  next
    case (Cons j r)
    from Cons.prems(1) doc Cons i obtain c' where
      c': "doc_splitNode (cs ! i) q position props k' = Inr c'"
      and doc': "doc' = KElement kd dd (cs[i := c'])"
      by (auto simp: doc_splitNode_def modify_children_Cons split: sum.splits)
    from Cons.IH [OF c' g dc(1)] obtain ts where
      pos: "0 \<le> position \<and> position \<le> int (length s)"
      and a: "after_node k c' = Some (KText k' (merge_props d props) (drop (nat position) s) # ts)"
      by auto
    from i have "cs[i := c'] = take i cs @ c' # drop (Suc i) cs"
      by (rule upd_conv_take_nth_drop)
    with doc' kkd after_none(2) [OF before] a pos show ?thesis
      by (simp add: after_list_append)
  qed
qed

lemma splitNode_example: "splitNode kvalue [0, 1] 2 [] ''t4'' = Inr kvalue_splitNode"
  by code_simp

text \<open>
  Claim C6. \<open>splitNode(path, position)\<close> is to move every point of the selection that is
  on the split text node at or after the position to the new successor, its offset
  reduced by the position. For the selection that runs backward from offset 4 to offset
  3 of \<open>t2\<close>, and the split of \<open>t2\<close> at position 1, that is the anchor on \<open>t4\<close> at offset 3
  and the focus on \<open>t4\<close> at offset 2. The code reads \<open>start\<close> and \<open>end\<close> once and then
  calls \<open>moveStartTo\<close> and \<open>moveEndTo\<close>; after the first call the focus is on the
  successor, the range no longer runs backward, and the second call moves the focus
  again: the anchor stays on \<open>t2\<close> at offset 4, past the one character left there, and
  the focus has the offset meant for the anchor.
\<close>

theorem splitNode_backward_leaves_anchor:
  "splitNode kvalue_backward [0, 1] 1 [] ''t4'' = Inr kvalue_backward_split"
  by code_simp

text \<open>Neither point of the result is where the spec puts it.\<close>

lemma splitNode_backward_not_moved:
  "\<not> moved_to_successor ''t2'' 1 ''t4''
       \<lparr>pt_key = ''t2'', pt_path = Some [0, 1], pt_offset = 4\<rparr>
       \<lparr>pt_key = ''t2'', pt_path = Some [0, 1], pt_offset = 4\<rparr>"
  "\<not> moved_to_successor ''t2'' 1 ''t4''
       \<lparr>pt_key = ''t2'', pt_path = Some [0, 1], pt_offset = 3\<rparr>
       \<lparr>pt_key = ''t4'', pt_path = Some [0, 2], pt_offset = 3\<rparr>"
  by (simp_all add: moved_to_successor_def)

section \<open>The selection never dangles\<close>

subsection \<open>Keys under the operations of the document\<close>

text \<open>
  An operation changes one subtree: the keys of the document, in document order, are the
  keys before the subtree, the keys of the subtree and the keys after it, and only the
  middle part changes. The same holds for the keys of the text nodes.
\<close>

lemma concat_map_nth:
  assumes "i < length cs"
  shows "concat (map h cs) = concat (map h (take i cs)) @ h (cs ! i) @ concat (map h (drop (Suc i) cs))"
proof -
  have "concat (map h cs) = concat (map h (take i cs @ cs ! i # drop (Suc i) cs))"
    using id_take_nth_drop [OF assms] by simp
  then show ?thesis by simp
qed

lemma concat_map_update:
  assumes "i < length cs"
  shows "concat (map h (cs[i := c])) = concat (map h (take i cs)) @ h c @ concat (map h (drop (Suc i) cs))"
  using upd_conv_take_nth_drop [OF assms, of c] by simp

lemma text_keys_simps:
  "text_keys (KText k d s) = [k]"
  "text_keys (KElement k d cs) = concat (map text_keys cs)"
  by (simp_all add: text_keys_def [abs_def] map_concat comp_def)

lemma modify_node_decomp:
  assumes "modify_node g doc p = Inr doc'"
  shows "\<exists>n n' B A Bt At. getNode doc p = Some n \<and> g n = Inr n' \<and>
           all_keys doc = B @ all_keys n @ A \<and> all_keys doc' = B @ all_keys n' @ A \<and>
           text_keys doc = Bt @ text_keys n @ At \<and> text_keys doc' = Bt @ text_keys n' @ At"
  using assms
proof (induction g doc p arbitrary: doc' rule: modify_node.induct)
  case (1 g n)
  then have "getNode n [] = Some n \<and> g n = Inr doc' \<and>
           all_keys n = [] @ all_keys n @ [] \<and> all_keys doc' = [] @ all_keys doc' @ [] \<and>
           text_keys n = [] @ text_keys n @ [] \<and> text_keys doc' = [] @ text_keys doc' @ []"
    by simp
  then show ?case by blast
next
  case (2 g k d s i p)
  then show ?case by simp
next
  case (3 g k d cs i p)
  from 3(2) have i: "i < length cs" by (auto split: if_splits)
  with 3(2) obtain c where c: "modify_node g (cs ! i) p = Inr c" and doc': "doc' = KElement k d (cs[i := c])"
    by (auto split: sum.splits)
  from 3(1) [OF i c] obtain n n' B A Bt At where
    n: "getNode (cs ! i) p = Some n" "g n = Inr n'"
    and ak: "all_keys (cs ! i) = B @ all_keys n @ A" "all_keys c = B @ all_keys n' @ A"
    and tk: "text_keys (cs ! i) = Bt @ text_keys n @ At" "text_keys c = Bt @ text_keys n' @ At"
    by blast
  let ?B = "k # concat (map all_keys (take i cs)) @ B"
  let ?A = "A @ concat (map all_keys (drop (Suc i) cs))"
  let ?Bt = "concat (map text_keys (take i cs)) @ Bt"
  let ?At = "At @ concat (map text_keys (drop (Suc i) cs))"
  have "getNode (KElement k d cs) (i # p) = Some n" using i n(1) by simp
  moreover have "all_keys (KElement k d cs) = ?B @ all_keys n @ ?A"
    using concat_map_nth [OF i, of all_keys] ak(1) by simp
  moreover have "all_keys doc' = ?B @ all_keys n' @ ?A"
    using concat_map_update [OF i, of all_keys c] ak(2) doc' by simp
  moreover have "text_keys (KElement k d cs) = ?Bt @ text_keys n @ ?At"
    using concat_map_nth [OF i, of text_keys] tk(1) by (simp add: text_keys_simps)
  moreover have "text_keys doc' = ?Bt @ text_keys n' @ ?At"
    using concat_map_update [OF i, of text_keys c] tk(2) doc' by (simp add: text_keys_simps)
  ultimately show ?case using n(2) by blast
qed


lemma on_children_Inr:
  assumes "on_children h n = Inr n'"
  obtains k d cs cs' where "n = KElement k d cs" "h cs = Inr cs'" "n' = KElement k d cs'"
  using assms by (cases n) (auto split: sum.splits)

lemma modify_children_decomp:
  assumes "modify_children h doc p = Inr doc'"
  shows "\<exists>kp dp cs cs' B A Bt At. p \<noteq> [] \<and>
           getNode doc (butlast p) = Some (KElement kp dp cs) \<and> h cs (last p) = Inr cs' \<and>
           all_keys doc = B @ concat (map all_keys cs) @ A \<and>
           all_keys doc' = B @ concat (map all_keys cs') @ A \<and>
           text_keys doc = Bt @ concat (map text_keys cs) @ At \<and>
           text_keys doc' = Bt @ concat (map text_keys cs') @ At"
proof -
  from assms have p: "p \<noteq> []"
    and m: "modify_node (on_children (\<lambda>cs. h cs (last p))) doc (butlast p) = Inr doc'"
    by (auto simp: modify_children_def split: if_splits)
  from modify_node_decomp [OF m] obtain n n' B A Bt At where
    n: "getNode doc (butlast p) = Some n" "on_children (\<lambda>cs. h cs (last p)) n = Inr n'"
    and ak: "all_keys doc = B @ all_keys n @ A" "all_keys doc' = B @ all_keys n' @ A"
    and tk: "text_keys doc = Bt @ text_keys n @ At" "text_keys doc' = Bt @ text_keys n' @ At"
    by blast
  from n(2) obtain kp dp cs cs' where
    e: "n = KElement kp dp cs" "h cs (last p) = Inr cs'" "n' = KElement kp dp cs'"
    by (rule on_children_Inr)
  have "all_keys doc = (B @ [kp]) @ concat (map all_keys cs) @ A"
    "all_keys doc' = (B @ [kp]) @ concat (map all_keys cs') @ A"
    using ak e by simp_all
  moreover have "text_keys doc = Bt @ concat (map text_keys cs) @ At"
    "text_keys doc' = Bt @ concat (map text_keys cs') @ At"
    using tk e by (simp_all add: text_keys_simps)
  ultimately show ?thesis using p n(1) e(1,2) by blast
qed

lemma getNode_snoc:
  "getNode doc (q @ [i]) =
     (case getNode doc q of
        Some (KElement k d cs) \<Rightarrow> (if i < length cs then Some (cs ! i) else None)
      | Some (KText k d s) \<Rightarrow> None
      | None \<Rightarrow> None)"
proof (induction doc q rule: getNode.induct)
  case (1 n)
  then show ?case by (cases n) simp_all
qed simp_all

lemma getNode_child:
  assumes "p \<noteq> []" and "getNode doc (butlast p) = Some (KElement k d cs)"
  shows "getNode doc p = (if last p < length cs then Some (cs ! last p) else None)"
proof -
  from assms(1) have "p = butlast p @ [last p]" by simp
  then have "getNode doc p = getNode doc (butlast p @ [last p])" by simp
  with assms(2) show ?thesis by (simp add: getNode_snoc)
qed

lemma distinct_replace:
  assumes "distinct (B @ X @ A)" and "distinct X'" and "set X' \<subseteq> set X \<union> N"
    and "N \<inter> set (B @ X @ A) = {}"
  shows "distinct (B @ X' @ A)"
  using assms by auto

lemma member_replace:
  assumes "x \<in> set (Bt @ T @ At)" and "x \<in> set T \<Longrightarrow> x \<in> set T'"
  shows "x \<in> set (Bt @ T' @ At)"
  using assms by auto


lemma split_children_keys:
  assumes "split_children position props k' cs i = Inr cs'"
  shows "set (concat (map all_keys cs')) = insert k' (set (concat (map all_keys cs)))"
    and "distinct (concat (map all_keys cs)) \<Longrightarrow> k' \<notin> set (concat (map all_keys cs)) \<Longrightarrow> distinct (concat (map all_keys cs'))"
    and "set (concat (map text_keys cs)) \<subseteq> set (concat (map text_keys cs'))"
proof -
  from assms have i: "i < length cs" by (auto simp: split_children_def split: if_splits)
  note K = concat_map_nth [OF i, of all_keys]
  note T = concat_map_nth [OF i, of text_keys]
  show "set (concat (map all_keys cs')) = insert k' (set (concat (map all_keys cs)))"
  proof (cases "cs ! i")
    case (KText k d s)
    with assms i show ?thesis
      by (subst K) (auto simp: split_children_def split: if_splits)
  next
    case (KElement k d cs2)
    with assms i have cs': "cs' = take i cs @
          [KElement k d (take (nat position) cs2),
           KElement k' (merge_props d props) (drop (nat position) cs2)] @ drop (Suc i) cs"
      by (auto simp: split_children_def split: if_splits)
    have "set (concat (map all_keys cs2)) = set (concat (map all_keys (take (nat position) cs2))) \<union> set (concat (map all_keys (drop (nat position) cs2)))"
      by (metis append_take_drop_id concat_append map_append set_append)
    with cs' KElement show ?thesis
      by (subst K) auto
  qed
  show "distinct (concat (map all_keys cs'))" if d: "distinct (concat (map all_keys cs))" and f: "k' \<notin> set (concat (map all_keys cs))"
  proof (cases "cs ! i")
    case (KText k d s)
    with assms i d f show ?thesis
      unfolding K by (auto simp: split_children_def split: if_splits)
  next
    case (KElement k d cs2)
    with assms i have cs': "cs' = take i cs @
          [KElement k d (take (nat position) cs2),
           KElement k' (merge_props d props) (drop (nat position) cs2)] @ drop (Suc i) cs"
      by (auto simp: split_children_def split: if_splits)
    have e: "concat (map all_keys cs2) = concat (map all_keys (take (nat position) cs2)) @ concat (map all_keys (drop (nat position) cs2))"
      by (metis append_take_drop_id concat_append map_append)
    from d f KElement show ?thesis
      unfolding K cs' by (simp add: e) blast
  qed
  show "set (concat (map text_keys cs)) \<subseteq> set (concat (map text_keys cs'))"
  proof (cases "cs ! i")
    case (KText k d s)
    with assms i show ?thesis
      by (subst T) (auto simp: split_children_def text_keys_simps split: if_splits)
  next
    case (KElement k d cs2)
    with assms i have cs': "cs' = take i cs @
          [KElement k d (take (nat position) cs2),
           KElement k' (merge_props d props) (drop (nat position) cs2)] @ drop (Suc i) cs"
      by (auto simp: split_children_def split: if_splits)
    have "concat (map text_keys cs2) = concat (map text_keys (take (nat position) cs2)) @ concat (map text_keys (drop (nat position) cs2))"
      by (metis append_take_drop_id concat_append map_append)
    with cs' KElement show ?thesis
      by (subst T) (auto simp: text_keys_simps)
  qed
qed


lemma doc_splitNode_keys:
  assumes "doc_splitNode doc p position props k' = Inr doc'"
  shows "set (text_keys doc) \<subseteq> set (text_keys doc')"
    and "unique_keys doc \<Longrightarrow> k' \<notin> set (all_keys doc) \<Longrightarrow> unique_keys doc'"
proof -
  from modify_children_decomp [OF assms [unfolded doc_splitNode_def]]
  obtain kp dp cs cs' B A Bt At where
    h: "split_children position props k' cs (last p) = Inr cs'"
    and ak: "all_keys doc = B @ concat (map all_keys cs) @ A" "all_keys doc' = B @ concat (map all_keys cs') @ A"
    and tk: "text_keys doc = Bt @ concat (map text_keys cs) @ At" "text_keys doc' = Bt @ concat (map text_keys cs') @ At"
    by blast
  note sk = split_children_keys [OF h]
  from sk(3) tk show "set (text_keys doc) \<subseteq> set (text_keys doc')" by auto
  show "unique_keys doc'" if u: "unique_keys doc" and f: "k' \<notin> set (all_keys doc)"
  proof -
    from u ak(1) have d: "distinct (B @ concat (map all_keys cs) @ A)" by (simp add: unique_keys_def)
    then have dcs: "distinct (concat (map all_keys cs))" by simp
    from f ak(1) have f': "k' \<notin> set (concat (map all_keys cs))" by simp
    have "distinct (B @ concat (map all_keys cs') @ A)"
    proof (rule distinct_replace [OF d sk(2) [OF dcs f'], of "{k'}"])
      from sk(1) show "set (concat (map all_keys cs')) \<subseteq> set (concat (map all_keys cs)) \<union> {k'}" by auto
      from f ak(1) show "{k'} \<inter> set (B @ concat (map all_keys cs) @ A) = {}" by simp
    qed
    with ak(2) show ?thesis by (simp add: unique_keys_def)
  qed
qed

lemma two_neighbours:
  assumes "0 < i" and "i < length cs"
  shows "cs = take (i - 1) cs @ cs ! (i - 1) # cs ! i # drop (Suc i) cs"
proof -
  from assms have "i - 1 < length cs" by simp
  from id_take_nth_drop [OF this] assms have "cs = take (i - 1) cs @ cs ! (i - 1) # drop i cs"
    by simp
  also from assms(2) have "drop i cs = cs ! i # drop (Suc i) cs"
    by (simp add: Cons_nth_drop_Suc)
  finally show ?thesis .
qed

lemma merge_children_keys:
  assumes "merge_children cs i = Inr cs'"
  shows "0 < i \<and> i < length cs \<and> (is_text (cs ! (i - 1)) \<longleftrightarrow> is_text (cs ! i))"
    and "set (concat (map all_keys cs')) \<subseteq> set (concat (map all_keys cs))"
    and "distinct (concat (map all_keys cs)) \<Longrightarrow> distinct (concat (map all_keys cs'))"
    and "is_text (cs ! i) \<Longrightarrow> node_key (cs ! (i - 1)) \<in> set (concat (map text_keys cs'))"
    and "is_text (cs ! i) \<Longrightarrow> x \<in> set (concat (map text_keys cs)) \<Longrightarrow> x \<noteq> node_key (cs ! i) \<Longrightarrow> x \<in> set (concat (map text_keys cs'))"
    and "\<not> is_text (cs ! i) \<Longrightarrow> concat (map text_keys cs') = concat (map text_keys cs)"
proof -
  from assms have i: "0 < i" "i < length cs"
    by (auto simp: merge_children_def split: if_splits)
  note nb = two_neighbours [OF i]
  define one where "one = cs ! (i - 1)"
  define two where "two = cs ! i"
  define L where "L = take (i - 1) cs"
  define R where "R = drop (Suc i) cs"
  from nb have cs: "cs = L @ one # two # R" by (simp add: one_def two_def L_def R_def)
  from assms i have m: "(case (one, two) of
                    (KText k1 d1 s1, KText k2 d2 s2) \<Rightarrow>
                      Inr (L @ [KText k1 d1 (s1 @ s2)] @ R)
                  | (KElement k1 d1 cs1, KElement k2 d2 cs2) \<Rightarrow>
                      Inr (L @ [KElement k1 d1 (cs1 @ cs2)] @ R)
                  | (KText k1 d1 s1, KElement k2 d2 cs2) \<Rightarrow> Inl InvalidOperationError
                  | (KElement k1 d1 cs1, KText k2 d2 s2) \<Rightarrow> Inl InvalidOperationError) = Inr cs'"
    unfolding merge_children_def one_def two_def L_def R_def by simp
  have kinds: "is_text one \<longleftrightarrow> is_text two"
    using m by (cases one; cases two) simp_all
  with i show "0 < i \<and> i < length cs \<and> (is_text (cs ! (i - 1)) \<longleftrightarrow> is_text (cs ! i))"
    by (simp add: one_def two_def)
  show "set (concat (map all_keys cs')) \<subseteq> set (concat (map all_keys cs))"
    using m by (subst cs; cases one; cases two) auto
  show "distinct (concat (map all_keys cs'))" if "distinct (concat (map all_keys cs))"
    using m that by (subst (asm) cs; cases one; cases two) auto
  show "node_key (cs ! (i - 1)) \<in> set (concat (map text_keys cs'))" if "is_text (cs ! i)"
    using m that unfolding one_def [symmetric] two_def [symmetric]
    by (cases one; cases two) (auto simp: text_keys_simps)
  show "x \<in> set (concat (map text_keys cs'))" if "is_text (cs ! i)" "x \<in> set (concat (map text_keys cs))" "x \<noteq> node_key (cs ! i)"
    using m that(1,3) that(2) [unfolded cs] unfolding two_def [symmetric]
    by (cases one; cases two) (auto simp: text_keys_simps)
  show "concat (map text_keys cs') = concat (map text_keys cs)" if "\<not> is_text (cs ! i)"
    using m that unfolding two_def [symmetric]
    by (subst cs; cases one; cases two) (auto simp: text_keys_simps)
qed

lemma doc_mergeNode_keys:
  assumes "doc_mergeNode doc p = Inr doc'"
  shows "\<exists>q one two. Path_decrement p = Some q \<and> getNode doc q = Some one \<and>
           getNode doc p = Some two \<and> (is_text one \<longleftrightarrow> is_text two) \<and>
           (unique_keys doc \<longrightarrow> unique_keys doc') \<and>
           (is_text two \<longrightarrow> node_key one \<in> set (text_keys doc') \<and>
              (\<forall>x \<in> set (text_keys doc). x \<noteq> node_key two \<longrightarrow> x \<in> set (text_keys doc'))) \<and>
           (\<not> is_text two \<longrightarrow> text_keys doc' = text_keys doc)"
proof -
  from modify_children_decomp [OF assms [unfolded doc_mergeNode_def]]
  obtain kp dp cs cs' B A Bt At where
    p: "p \<noteq> []" and par: "getNode doc (butlast p) = Some (KElement kp dp cs)"
    and h: "merge_children cs (last p) = Inr cs'"
    and ak: "all_keys doc = B @ concat (map all_keys cs) @ A" "all_keys doc' = B @ concat (map all_keys cs') @ A"
    and tk: "text_keys doc = Bt @ concat (map text_keys cs) @ At" "text_keys doc' = Bt @ concat (map text_keys cs') @ At"
    by blast
  note mk = merge_children_keys [OF h]
  let ?i = "last p"
  from mk(1) have i: "0 < ?i" "?i < length cs" by simp_all
  from p i have dec: "Path_decrement p = Some (butlast p @ [?i - 1])"
    by (simp add: Path_decrement_def)
  from par i have one: "getNode doc (butlast p @ [?i - 1]) = Some (cs ! (?i - 1))"
    by (simp add: getNode_snoc)
  from getNode_child [OF p par] i have two: "getNode doc p = Some (cs ! ?i)"
    by simp
  have u: "unique_keys doc'" if "unique_keys doc"
  proof -
    from that ak(1) have d: "distinct (B @ concat (map all_keys cs) @ A)" by (simp add: unique_keys_def)
    then have "distinct (concat (map all_keys cs))" by simp
    from distinct_replace [OF d mk(3) [OF this], of "{}"] mk(2) ak(2)
    show ?thesis by (simp add: unique_keys_def)
  qed
  have t1: "node_key (cs ! (?i - 1)) \<in> set (text_keys doc')" if "is_text (cs ! ?i)"
    using mk(4) [OF that] tk(2) by simp
  have t2: "x \<in> set (text_keys doc')"
    if "is_text (cs ! ?i)" "x \<in> set (text_keys doc)" "x \<noteq> node_key (cs ! ?i)" for x
    using member_replace [of x Bt "concat (map text_keys cs)" At "concat (map text_keys cs')"] mk(5) [OF that(1) _ that(3)] that(2) tk
    by simp
  have t3: "text_keys doc' = text_keys doc" if "\<not> is_text (cs ! ?i)"
    using mk(6) [OF that] tk by simp
  from dec one two mk(1) u t1 t2 t3 show ?thesis by blast
qed

lemma remove_child_keys:
  assumes "remove_child cs i = Inr cs'"
  shows "i < length cs"
    and "concat (map all_keys cs) = concat (map all_keys (take i cs)) @ all_keys (cs ! i) @ concat (map all_keys (drop (Suc i) cs))"
    and "concat (map all_keys cs') = concat (map all_keys (take i cs)) @ concat (map all_keys (drop (Suc i) cs))"
    and "concat (map text_keys cs) = concat (map text_keys (take i cs)) @ text_keys (cs ! i) @ concat (map text_keys (drop (Suc i) cs))"
    and "concat (map text_keys cs') = concat (map text_keys (take i cs)) @ concat (map text_keys (drop (Suc i) cs))"
proof -
  from assms show i: "i < length cs" and "concat (map all_keys cs') = concat (map all_keys (take i cs)) @ concat (map all_keys (drop (Suc i) cs))"
    and "concat (map text_keys cs') = concat (map text_keys (take i cs)) @ concat (map text_keys (drop (Suc i) cs))"
    by (auto simp: remove_child_def split: if_splits)
  from concat_map_nth [OF i] show "concat (map all_keys cs) = concat (map all_keys (take i cs)) @ all_keys (cs ! i) @ concat (map all_keys (drop (Suc i) cs))"
    and "concat (map text_keys cs) = concat (map text_keys (take i cs)) @ text_keys (cs ! i) @ concat (map text_keys (drop (Suc i) cs))"
    by blast+
qed

lemma doc_removeNode_keys:
  assumes "doc_removeNode doc p = Inr doc'"
  shows "\<exists>node B A Bt At. getNode doc p = Some node \<and>
           all_keys doc = B @ all_keys node @ A \<and> all_keys doc' = B @ A \<and>
           text_keys doc = Bt @ text_keys node @ At \<and> text_keys doc' = Bt @ At"
proof -
  from modify_children_decomp [OF assms [unfolded doc_removeNode_def]]
  obtain kp dp cs cs' B A Bt At where
    p: "p \<noteq> []" and par: "getNode doc (butlast p) = Some (KElement kp dp cs)"
    and h: "remove_child cs (last p) = Inr cs'"
    and ak: "all_keys doc = B @ concat (map all_keys cs) @ A" "all_keys doc' = B @ concat (map all_keys cs') @ A"
    and tk: "text_keys doc = Bt @ concat (map text_keys cs) @ At" "text_keys doc' = Bt @ concat (map text_keys cs') @ At"
    by blast
  note rk = remove_child_keys [OF h]
  let ?i = "last p"
  from getNode_child [OF p par] rk(1) have "getNode doc p = Some (cs ! ?i)" by simp
  moreover have "all_keys doc = (B @ concat (map all_keys (take ?i cs))) @ all_keys (cs ! ?i) @ (concat (map all_keys (drop (Suc ?i) cs)) @ A)"
    using ak(1) rk(2) by simp
  moreover have "all_keys doc' = (B @ concat (map all_keys (take ?i cs))) @ (concat (map all_keys (drop (Suc ?i) cs)) @ A)"
    using ak(2) rk(3) by simp
  moreover have "text_keys doc = (Bt @ concat (map text_keys (take ?i cs))) @ text_keys (cs ! ?i) @ (concat (map text_keys (drop (Suc ?i) cs)) @ At)"
    using tk(1) rk(4) by simp
  moreover have "text_keys doc' = (Bt @ concat (map text_keys (take ?i cs))) @ (concat (map text_keys (drop (Suc ?i) cs)) @ At)"
    using tk(2) rk(5) by simp
  ultimately show ?thesis by blast
qed

lemma insert_children_keys:
  assumes "insert_child n cs i = Inr cs'"
  shows "set (concat (map all_keys cs')) = set (concat (map all_keys cs)) \<union> set (all_keys n)"
    and "distinct (concat (map all_keys cs)) \<Longrightarrow> distinct (all_keys n) \<Longrightarrow> set (all_keys n) \<inter> set (concat (map all_keys cs)) = {} \<Longrightarrow>
         distinct (concat (map all_keys cs'))"
    and "set (concat (map text_keys cs')) = set (concat (map text_keys cs)) \<union> set (text_keys n)"
proof -
  from assms have cs': "cs' = take i cs @ [n] @ drop i cs" by (simp add: insert_child_def)
  have K: "concat (map all_keys cs) = concat (map all_keys (take i cs)) @ concat (map all_keys (drop i cs))"
    by (metis append_take_drop_id concat_append map_append)
  have T: "concat (map text_keys cs) = concat (map text_keys (take i cs)) @ concat (map text_keys (drop i cs))"
    by (metis append_take_drop_id concat_append map_append)
  show "set (concat (map all_keys cs')) = set (concat (map all_keys cs)) \<union> set (all_keys n)"
    by (subst K) (auto simp: cs')
  show "set (concat (map text_keys cs')) = set (concat (map text_keys cs)) \<union> set (text_keys n)"
    by (subst T) (auto simp: cs')
  show "distinct (concat (map all_keys cs'))"
    if "distinct (concat (map all_keys cs))" "distinct (all_keys n)" "set (all_keys n) \<inter> set (concat (map all_keys cs)) = {}"
    using that unfolding K cs' by auto
qed


lemma insert_at_keys:
  assumes "modify_node (on_children (\<lambda>cs. insert_child n cs i)) doc q = Inr doc'"
  shows "set (text_keys doc') = set (text_keys doc) \<union> set (text_keys n)"
    and "distinct (all_keys doc) \<Longrightarrow> distinct (all_keys n) \<Longrightarrow>
         set (all_keys n) \<inter> set (all_keys doc) = {} \<Longrightarrow> distinct (all_keys doc')"
proof -
  from modify_node_decomp [OF assms] obtain m m' B A Bt At where
    m: "on_children (\<lambda>cs. insert_child n cs i) m = Inr m'"
    and ak: "all_keys doc = B @ all_keys m @ A" "all_keys doc' = B @ all_keys m' @ A"
    and tk: "text_keys doc = Bt @ text_keys m @ At" "text_keys doc' = Bt @ text_keys m' @ At"
    by blast
  from m obtain k d cs cs' where
    e: "m = KElement k d cs" "insert_child n cs i = Inr cs'" "m' = KElement k d cs'"
    by (rule on_children_Inr)
  note ik = insert_children_keys [OF e(2)]
  from tk e ik(3) show "set (text_keys doc') = set (text_keys doc) \<union> set (text_keys n)"
    by (auto simp: text_keys_simps)
  show "distinct (all_keys doc')"
    if d: "distinct (all_keys doc)" and dn: "distinct (all_keys n)"
      and f: "set (all_keys n) \<inter> set (all_keys doc) = {}"
  proof -
    from d ak(1) have d': "distinct (B @ all_keys m @ A)" by simp
    from d' e(1) have "distinct (concat (map all_keys cs))" by simp
    moreover from f ak(1) e(1) have "set (all_keys n) \<inter> set (concat (map all_keys cs)) = {}" by auto
    ultimately have "distinct (concat (map all_keys cs'))" using dn by (intro ik(2))
    moreover from f ak(1) e(1) have "k \<notin> set (all_keys n)" by auto
    moreover from d' e(1) have "k \<notin> set (concat (map all_keys cs))" by simp
    ultimately have dm': "distinct (all_keys m')" using e(3) ik(1) by simp
    have "distinct (B @ all_keys m' @ A)"
    proof (rule distinct_replace [OF d' dm', of "set (all_keys n)"])
      from e ik(1) show "set (all_keys m') \<subseteq> set (all_keys m) \<union> set (all_keys n)" by auto
      from f ak(1) show "set (all_keys n) \<inter> set (B @ all_keys m @ A) = {}" by simp
    qed
    with ak(2) show ?thesis by simp
  qed
qed

lemma doc_insertNode_keys:
  assumes "doc_insertNode doc p n = Inr doc'"
  shows "set (text_keys doc) \<subseteq> set (text_keys doc')"
    and "unique_keys doc \<Longrightarrow> distinct (all_keys n) \<Longrightarrow>
         set (all_keys n) \<inter> set (all_keys doc) = {} \<Longrightarrow> unique_keys doc'"
proof -
  from assms have m: "modify_node (on_children (\<lambda>cs. insert_child n cs (last p))) doc (butlast p) = Inr doc'"
    by (auto simp: doc_insertNode_def modify_children_def split: if_splits)
  from insert_at_keys(1) [OF m] show "set (text_keys doc) \<subseteq> set (text_keys doc')" by simp
  from insert_at_keys(2) [OF m] show "unique_keys doc \<Longrightarrow> distinct (all_keys n) \<Longrightarrow>
         set (all_keys n) \<inter> set (all_keys doc) = {} \<Longrightarrow> unique_keys doc'"
    by (simp add: unique_keys_def)
qed

lemma doc_moveNode_keys:
  assumes "doc_moveNode doc p newPath newIndex = Inr doc'"
  shows "set (text_keys doc') = set (text_keys doc)"
    and "unique_keys doc \<Longrightarrow> unique_keys doc'"
proof -
  from assms obtain n doc1 where
    n: "getNode doc p = Some n" and r: "doc_removeNode doc p = Inr doc1"
    and ins: "modify_node (on_children (\<lambda>cs. insert_child n cs newIndex)) doc1 newPath = Inr doc'"
    by (auto simp: doc_moveNode_def split: option.splits if_splits sum.splits)
  from doc_removeNode_keys [OF r] n obtain B A Bt At where
    ak: "all_keys doc = B @ all_keys n @ A" "all_keys doc1 = B @ A"
    and tk: "text_keys doc = Bt @ text_keys n @ At" "text_keys doc1 = Bt @ At"
    by auto
  from insert_at_keys(1) [OF ins] tk show "set (text_keys doc') = set (text_keys doc)"
    by auto
  show "unique_keys doc'" if "unique_keys doc"
  proof -
    from that ak(1) have d: "distinct (B @ all_keys n @ A)" by (simp add: unique_keys_def)
    with ak(2) have "distinct (all_keys doc1)" "distinct (all_keys n)"
      "set (all_keys n) \<inter> set (all_keys doc1) = {}"
      by auto
    from insert_at_keys(2) [OF ins this] show ?thesis by (simp add: unique_keys_def)
  qed
qed

lemma modify_node_same_keys:
  assumes "modify_node g doc p = Inr doc'"
    and "\<And>n n'. g n = Inr n' \<Longrightarrow> all_keys n' = all_keys n \<and> text_keys n' = text_keys n"
  shows "all_keys doc' = all_keys doc \<and> text_keys doc' = text_keys doc"
proof -
  from modify_node_decomp [OF assms(1)] obtain n n' B A Bt At where
    "g n = Inr n'"
    "all_keys doc = B @ all_keys n @ A" "all_keys doc' = B @ all_keys n' @ A"
    "text_keys doc = Bt @ text_keys n @ At" "text_keys doc' = Bt @ text_keys n' @ At"
    by blast
  with assms(2) [of n n'] show ?thesis by simp
qed

lemma doc_setNode_keys:
  assumes "doc_setNode doc p props = Inr doc'"
  shows "all_keys doc' = all_keys doc \<and> text_keys doc' = text_keys doc"
proof (rule modify_node_same_keys [OF assms [unfolded doc_setNode_def]])
  fix n n' assume "set_props props n = Inr n'"
  then show "all_keys n' = all_keys n \<and> text_keys n' = text_keys n"
    by (cases n) (auto simp: text_keys_simps)
qed

lemma doc_insertText_keys:
  assumes "doc_insertText doc p off str = Inr doc'"
  shows "all_keys doc' = all_keys doc \<and> text_keys doc' = text_keys doc"
proof (rule modify_node_same_keys [OF assms [unfolded doc_insertText_def]])
  fix n n' assume "insert_text off str n = Inr n'"
  then show "all_keys n' = all_keys n \<and> text_keys n' = text_keys n"
    by (cases n) (auto simp: text_keys_simps split: if_splits)
qed

lemma doc_removeText_keys:
  assumes "doc_removeText doc p off str = Inr doc'"
  shows "all_keys doc' = all_keys doc \<and> text_keys doc' = text_keys doc"
proof (rule modify_node_same_keys [OF assms [unfolded doc_removeText_def]])
  fix n n' assume "remove_text off str n = Inr n'"
  then show "all_keys n' = all_keys n \<and> text_keys n' = text_keys n"
    by (cases n) (auto simp: text_keys_simps split: if_splits)
qed

subsection \<open>The neighbours of a removed subtree\<close>

text \<open>
  With unique keys, the text nodes before the first text of a subtree and after its last
  one lie outside of the subtree, so the previous and the next text node that
  \<open>removeNode\<close> computes are still in the document after the removal.
\<close>

lemma text_keys_subset: "set (text_keys n) \<subseteq> set (all_keys n)"
  by (induction n) (auto simp: text_keys_simps)

lemma ktexts_key: "t \<in> set (ktexts n) \<Longrightarrow> node_key t \<in> set (all_keys n)"
  using text_keys_subset [of n] by (auto simp: text_keys_def)

lemma before_none:
  "k \<notin> set (all_keys n) \<Longrightarrow> before_node k n = None"
  "(\<forall>c \<in> set cs. k \<notin> set (all_keys c)) \<Longrightarrow> before_list k cs = None"
  by (induction k n and k cs rule: before_node_before_list.induct) auto

lemma before_list_skip:
  assumes "\<forall>c \<in> set xs. k \<notin> set (all_keys c)"
  shows "before_list k (xs @ ys) =
           (case before_list k ys of None \<Rightarrow> None | Some ts \<Rightarrow> Some (concat (map ktexts xs) @ ts))"
  using assms
  by (induction xs) (auto simp: before_none split: option.splits)

lemma first_before_list:
  assumes "\<And>c t ts. c \<in> set cs \<Longrightarrow> distinct (all_keys c) \<Longrightarrow> ktexts c = t # ts \<Longrightarrow>
             before_node (node_key t) c = Some []"
    and "distinct (concat (map all_keys cs))" and "concat (map ktexts cs) = t # ts"
  shows "before_list (node_key t) cs = Some []"
  using assms
proof (induction cs)
  case Nil
  then show ?case by simp
next
  case (Cons c cs)
  show ?case
  proof (cases "ktexts c")
    case Nil
    with Cons.prems(3) have rest: "concat (map ktexts cs) = t # ts" by simp
    then have "t \<in> set (concat (map ktexts cs))" by simp
    then obtain c' where "c' \<in> set cs" "t \<in> set (ktexts c')" by auto
    then have "node_key t \<in> set (concat (map all_keys cs))" using ktexts_key by fastforce
    with Cons.prems(2) have "node_key t \<notin> set (all_keys c)" by auto
    then have "before_node (node_key t) c = None" by (rule before_none)
    moreover from Cons.prems(2) have "distinct (concat (map all_keys cs))" by simp
    with Cons.IH [OF Cons.prems(1) _ rest] have "before_list (node_key t) cs = Some []"
      by simp
    ultimately show ?thesis using Nil by simp
  next
    case (Cons t' ts')
    with Cons.prems(3) have "t' = t" by simp
    moreover from Cons.prems(2) have "distinct (all_keys c)" by simp
    ultimately have "before_node (node_key t) c = Some []"
      using Cons.prems(1) [of c t ts'] Cons by simp
    then show ?thesis by simp
  qed
qed

lemma first_before_texts:
  "distinct (all_keys n) \<Longrightarrow> ktexts n = t # ts \<Longrightarrow> before_node (node_key t) n = Some []"
proof (induction n arbitrary: t ts)
  case (KText k d s)
  then show ?case by auto
next
  case (KElement k d cs)
  from KElement.prems(2) have "t \<in> set (concat (map ktexts cs))" by simp
  then obtain c where "c \<in> set cs" "t \<in> set (ktexts c)" by auto
  then have "node_key t \<in> set (concat (map all_keys cs))" using ktexts_key by fastforce
  with KElement.prems(1) have "node_key t \<noteq> k" by auto
  moreover have "before_list (node_key t) cs = Some []"
  proof (rule first_before_list)
    from KElement.prems(1) show "distinct (concat (map all_keys cs))" by simp
    from KElement.prems(2) show "concat (map ktexts cs) = t # ts" by simp
  qed (rule KElement.IH)
  ultimately show ?case by simp
qed

lemma first_before:
  assumes "distinct (all_keys n)"
  shows "before_node (node_key (first_of n)) n = Some []"
proof (cases "is_text n")
  case True
  then show ?thesis by (cases n) (simp_all add: first_of_def)
next
  case False
  show ?thesis
  proof (cases "ktexts n")
    case Nil
    with False have "first_of n = n" by (simp add: first_of_def getFirstText_def)
    then show ?thesis by (cases n) simp_all
  next
    case (Cons t ts)
    with False have "first_of n = t" by (simp add: first_of_def getFirstText_def)
    with first_before_texts [OF assms Cons] show ?thesis by simp
  qed
qed

lemma last_after_list:
  assumes "\<And>c t ts. c \<in> set cs \<Longrightarrow> distinct (all_keys c) \<Longrightarrow> ktexts c = ts @ [t] \<Longrightarrow>
             after_node (node_key t) c = Some []"
    and "distinct (concat (map all_keys cs))" and "concat (map ktexts cs) = ts @ [t]"
  shows "after_list (node_key t) cs = Some []"
  using assms
proof (induction cs arbitrary: ts rule: rev_induct)
  case Nil
  then show ?case by simp
next
  case (snoc c cs)
  show ?case
  proof (cases "ktexts c = []")
    case True
    with snoc.prems(3) have rest: "concat (map ktexts cs) = ts @ [t]" by simp
    from snoc.prems(2) have "distinct (concat (map all_keys cs))" by simp
    with snoc.IH [OF snoc.prems(1) _ rest] have "after_list (node_key t) cs = Some []"
      by simp
    with True show ?thesis by (simp add: after_list_append)
  next
    case False
    then obtain ts' t' where c: "ktexts c = ts' @ [t']"
      by (metis rev_exhaust)
    with snoc.prems(3) have "t' = t" by simp
    with c have tc: "ktexts c = ts' @ [t]" by simp
    then have "t \<in> set (ktexts c)" by simp
    from ktexts_key [OF this] snoc.prems(2) have "\<forall>c' \<in> set cs. node_key t \<notin> set (all_keys c')"
      by auto
    then have "after_list (node_key t) cs = None" by (rule after_none)
    moreover from snoc.prems(2) have "distinct (all_keys c)" by simp
    with snoc.prems(1) [of c ts' t] tc have "after_node (node_key t) c = Some []" by simp
    ultimately show ?thesis by (simp add: after_list_append)
  qed
qed

lemma last_after_texts:
  "distinct (all_keys n) \<Longrightarrow> ktexts n = ts @ [t] \<Longrightarrow> after_node (node_key t) n = Some []"
proof (induction n arbitrary: t ts)
  case (KText k d s)
  then show ?case by auto
next
  case (KElement k d cs)
  from KElement.prems(2) have "t \<in> set (concat (map ktexts cs))" by simp
  then obtain c where "c \<in> set cs" "t \<in> set (ktexts c)" by auto
  then have "node_key t \<in> set (concat (map all_keys cs))" using ktexts_key by fastforce
  with KElement.prems(1) have "node_key t \<noteq> k" by auto
  moreover have "after_list (node_key t) cs = Some []"
  proof (rule last_after_list)
    from KElement.prems(1) show "distinct (concat (map all_keys cs))" by simp
    from KElement.prems(2) show "concat (map ktexts cs) = ts @ [t]" by simp
  qed (rule KElement.IH)
  ultimately show ?case by simp
qed

lemma last_after:
  assumes "distinct (all_keys n)"
  shows "after_node (node_key (last_of n)) n = Some []"
proof (cases "is_text n")
  case True
  then show ?thesis by (cases n) (simp_all add: last_of_def)
next
  case False
  show ?thesis
  proof (cases "ktexts n = []")
    case True
    with False have "last_of n = n" by (simp add: last_of_def getLastText_def)
    then show ?thesis by (cases n) simp_all
  next
    case nonempty: False
    then obtain ts t where c: "ktexts n = ts @ [t]"
      by (metis rev_exhaust)
    with False have "last_of n = t" by (simp add: last_of_def getLastText_def)
    with last_after_texts [OF assms c] show ?thesis by simp
  qed
qed

lemma first_of_key: "node_key (first_of n) \<in> set (all_keys n)"
proof (cases "is_text n \<or> ktexts n = []")
  case True
  then have "first_of n = n" by (auto simp: first_of_def getFirstText_def)
  then show ?thesis by (cases n) simp_all
next
  case False
  then obtain t ts where "ktexts n = t # ts" by (cases "ktexts n") auto
  with False have "first_of n = t" "t \<in> set (ktexts n)" by (simp_all add: first_of_def getFirstText_def)
  with ktexts_key show ?thesis by simp
qed

lemma last_of_key: "node_key (last_of n) \<in> set (all_keys n)"
proof (cases "is_text n \<or> ktexts n = []")
  case True
  then have "last_of n = n" by (auto simp: last_of_def getLastText_def)
  then show ?thesis by (cases n) simp_all
next
  case False
  then obtain ts t where c: "ktexts n = ts @ [t]" by (metis rev_exhaust)
  with False have "last_of n = t" "t \<in> set (ktexts n)" by (simp_all add: last_of_def getLastText_def)
  with ktexts_key show ?thesis by simp
qed


lemma map_key_texts: "map node_key (concat (map ktexts xs)) = concat (map text_keys xs)"
  by (simp add: map_concat text_keys_def [abs_def] comp_def)

lemma remove_neighbours:
  assumes "doc_removeNode doc p = Inr doc'"
    and "getNode doc p = Some node"
    and "distinct (all_keys doc)"
  shows "\<exists>Bn An. before_node (node_key (first_of node)) doc = Some Bn \<and>
           after_node (node_key (last_of node)) doc = Some An \<and>
           set (map node_key Bn) \<subseteq> set (text_keys doc') \<and>
           set (map node_key An) \<subseteq> set (text_keys doc')"
  using assms
proof (induction p arbitrary: doc doc')
  case Nil
  then show ?case by (simp add: doc_removeNode_def modify_children_def)
next
  case (Cons i q)
  let ?k1 = "node_key (first_of node)"
  let ?k2 = "node_key (last_of node)"
  from Cons.prems(2) obtain kd dd cs where doc: "doc = KElement kd dd cs"
    by (cases doc) auto
  from Cons.prems(2) doc have i: "i < length cs" and g: "getNode (cs ! i) q = Some node"
    by (auto split: if_splits)
  note dc = distinct_child [OF Cons.prems(3) [unfolded doc] i]
  from all_keys_getNode [OF g] first_of_key [of node] last_of_key [of node]
  have kin: "?k1 \<in> set (all_keys (cs ! i))" "?k2 \<in> set (all_keys (cs ! i))" by auto
  with dc(2) have kkd: "?k1 \<noteq> kd" "?k2 \<noteq> kd" by auto
  from kin dc(3) have before: "\<forall>c \<in> set (take i cs). ?k1 \<notin> set (all_keys c)"
    "\<forall>c \<in> set (take i cs). ?k2 \<notin> set (all_keys c)" by auto
  have cs: "cs = take i cs @ (cs ! i # drop (Suc i) cs)"
    using id_take_nth_drop [OF i] .
  have bl: "before_node ?k1 doc =
      (case before_node ?k1 (cs ! i) of None \<Rightarrow>
         (case before_list ?k1 (drop (Suc i) cs) of None \<Rightarrow> None
          | Some ts \<Rightarrow> Some (concat (map ktexts (take i cs)) @ ktexts (cs ! i) @ ts))
       | Some ts \<Rightarrow> Some (concat (map ktexts (take i cs)) @ ts))"
  proof -
    have "before_node ?k1 doc = before_list ?k1 (take i cs @ (cs ! i # drop (Suc i) cs))"
      using doc kkd(1) cs by simp
    also have "\<dots> = (case before_list ?k1 (cs ! i # drop (Suc i) cs) of None \<Rightarrow> None
        | Some ts \<Rightarrow> Some (concat (map ktexts (take i cs)) @ ts))"
      by (rule before_list_skip [OF before(1)])
    finally show ?thesis by (simp split: option.splits)
  qed
  have al: "after_node ?k2 doc =
      (case after_node ?k2 (cs ! i) of None \<Rightarrow> after_list ?k2 (drop (Suc i) cs)
       | Some ts \<Rightarrow> Some (ts @ concat (map ktexts (drop (Suc i) cs))))"
  proof -
    have "after_node ?k2 doc = after_list ?k2 (take i cs @ (cs ! i # drop (Suc i) cs))"
      using doc kkd(2) cs by simp
    also have "\<dots> = after_list ?k2 (cs ! i # drop (Suc i) cs)"
      by (simp only: after_list_append after_none(2) [OF before(2)] option.case)
    finally show ?thesis by simp
  qed
  show ?case
  proof (cases q)
    case Nil
    with g have node: "cs ! i = node" by simp
    from Cons.prems(1) doc Nil i have doc': "doc' = KElement kd dd (take i cs @ drop (Suc i) cs)"
      by (auto simp: doc_removeNode_def modify_children_single remove_child_def)
    from dc(1) node have dn: "distinct (all_keys node)" by simp
    from bl node first_before [OF dn]
    have b: "before_node ?k1 doc = Some (concat (map ktexts (take i cs)))" by simp
    from al node last_after [OF dn]
    have a: "after_node ?k2 doc = Some (concat (map ktexts (drop (Suc i) cs)))" by simp
    have "set (map node_key (concat (map ktexts (take i cs)))) \<subseteq> set (text_keys doc')"
      "set (map node_key (concat (map ktexts (drop (Suc i) cs)))) \<subseteq> set (text_keys doc')"
      unfolding map_key_texts doc' by (auto simp: text_keys_simps)
    with a b show ?thesis by blast
  next
    case (Cons j r)
    from Cons.prems(1) doc Cons i obtain c' where
      c': "doc_removeNode (cs ! i) q = Inr c'"
      and doc': "doc' = KElement kd dd (cs[i := c'])"
      by (auto simp: doc_removeNode_def modify_children_Cons split: sum.splits)
    from Cons.IH [OF c' g dc(1)] obtain Bn An where
      b: "before_node ?k1 (cs ! i) = Some Bn" and a: "after_node ?k2 (cs ! i) = Some An"
      and sub: "set (map node_key Bn) \<subseteq> set (text_keys c')"
        "set (map node_key An) \<subseteq> set (text_keys c')"
      by blast
    have tk: "text_keys doc' = concat (map text_keys (take i cs)) @ text_keys c' @ concat (map text_keys (drop (Suc i) cs))"
      using concat_map_update [OF i, of text_keys c'] doc' by (simp add: text_keys_simps)
    from bl b have b': "before_node ?k1 doc = Some (concat (map ktexts (take i cs)) @ Bn)" by simp
    from al a have a': "after_node ?k2 doc = Some (An @ concat (map ktexts (drop (Suc i) cs)))" by simp
    have "set (map node_key (concat (map ktexts (take i cs)) @ Bn)) \<subseteq> set (text_keys doc')"
      using sub(1) unfolding map_append map_key_texts tk by auto
    moreover have "set (map node_key (An @ concat (map ktexts (drop (Suc i) cs)))) \<subseteq> set (text_keys doc')"
      using sub(2) unfolding map_append map_key_texts tk by auto
    ultimately show ?thesis using a' b' by blast
  qed
qed

lemma remove_prev_next:
  assumes "doc_removeNode doc p = Inr doc'"
    and "getNode doc p = Some node"
    and "unique_keys doc"
  shows "doc_getPreviousText doc (node_key (first_of node)) = Some pv \<Longrightarrow>
           node_key pv \<in> set (text_keys doc')"
    and "doc_getNextText doc (node_key (last_of node)) = Some nx \<Longrightarrow>
           node_key nx \<in> set (text_keys doc')"
proof -
  from remove_neighbours [OF assms(1,2) assms(3) [unfolded unique_keys_def]]
  obtain Bn An where
    b: "before_node (node_key (first_of node)) doc = Some Bn"
    and a: "after_node (node_key (last_of node)) doc = Some An"
    and sub: "set (map node_key Bn) \<subseteq> set (text_keys doc')"
      "set (map node_key An) \<subseteq> set (text_keys doc')"
    by blast
  show "node_key pv \<in> set (text_keys doc')"
    if "doc_getPreviousText doc (node_key (first_of node)) = Some pv"
  proof -
    from that b have "pv \<in> set Bn"
      by (auto simp: doc_getPreviousText_def split: list.splits dest: arg_cong [where f = set])
    with sub(1) show ?thesis by auto
  qed
  show "node_key nx \<in> set (text_keys doc')"
    if "doc_getNextText doc (node_key (last_of node)) = Some nx"
  proof -
    from that a have "nx \<in> set An"
      by (auto simp: doc_getNextText_def split: list.splits)
    with sub(2) show ?thesis by auto
  qed
qed

subsection \<open>removeNode relocates to the nearest surviving text\<close>

text \<open>
  The previous text of the first text of a subtree and the next text of its last text,
  which \<open>removeNode\<close> computes by key, are with unique keys the neighbours of the subtree
  by position; the removal leaves the texts on both sides and nothing else.
\<close>

lemma texts_split:
  "getNode doc p = Some node \<Longrightarrow>
     ktexts doc = texts_before doc p @ ktexts node @ texts_after doc p"
proof (induction doc p rule: getNode.induct)
  case (3 k d cs i p)
  then have i: "i < length cs" and g: "getNode (cs ! i) p = Some node"
    by (auto split: if_splits)
  from 3(1) [OF i g] concat_map_nth [OF i, of ktexts] i show ?case by simp
qed simp_all

lemma doc_removeNode_element:
  assumes "doc_removeNode doc (i # q) = Inr doc'"
  obtains kd dd cs where "doc = KElement kd dd cs"
  using assms
  by (cases doc; cases q) (auto simp: doc_removeNode_def modify_children_def)

lemma removeNode_texts:
  "doc_removeNode doc p = Inr doc' \<Longrightarrow> ktexts doc' = texts_before doc p @ texts_after doc p"
proof (induction p arbitrary: doc doc')
  case Nil
  then show ?case by (simp add: doc_removeNode_def modify_children_def)
next
  case (Cons i q)
  from Cons.prems obtain kd dd cs where doc: "doc = KElement kd dd cs"
    by (rule doc_removeNode_element)
  show ?case
  proof (cases q)
    case Nil
    from Cons.prems doc Nil have i: "i < length cs"
      and doc': "doc' = KElement kd dd (take i cs @ drop (Suc i) cs)"
      by (auto simp: doc_removeNode_def modify_children_single remove_child_def split: if_splits)
    with doc Nil show ?thesis by simp
  next
    case (Cons j r)
    from Cons.prems doc Cons obtain c' where i: "i < length cs"
      and c': "doc_removeNode (cs ! i) q = Inr c'"
      and doc': "doc' = KElement kd dd (cs[i := c'])"
      by (auto simp: doc_removeNode_def modify_children_Cons split: sum.splits if_splits)
    from Cons.IH [OF c'] concat_map_update [OF i, of ktexts c'] doc doc' i show ?thesis
      by simp
  qed
qed

lemma neighbours_by_path:
  assumes "getNode doc p = Some node" and "distinct (all_keys doc)"
  shows "before_node (node_key (first_of node)) doc = Some (texts_before doc p) \<and>
         after_node (node_key (last_of node)) doc = Some (texts_after doc p)"
  using assms
proof (induction p arbitrary: doc)
  case Nil
  then show ?case using first_before [of node] last_after [of node] by simp
next
  case (Cons i q)
  let ?k1 = "node_key (first_of node)"
  let ?k2 = "node_key (last_of node)"
  from Cons.prems(1) obtain kd dd cs where doc: "doc = KElement kd dd cs"
    by (cases doc) auto
  from Cons.prems(1) doc have i: "i < length cs" and g: "getNode (cs ! i) q = Some node"
    by (auto split: if_splits)
  note dc = distinct_child [OF Cons.prems(2) [unfolded doc] i]
  from all_keys_getNode [OF g] first_of_key [of node] last_of_key [of node]
  have kin: "?k1 \<in> set (all_keys (cs ! i))" "?k2 \<in> set (all_keys (cs ! i))" by auto
  with dc(2) have kkd: "?k1 \<noteq> kd" "?k2 \<noteq> kd" by auto
  from kin dc(3) have before: "\<forall>c \<in> set (take i cs). ?k1 \<notin> set (all_keys c)"
    "\<forall>c \<in> set (take i cs). ?k2 \<notin> set (all_keys c)" by auto
  have cs: "cs = take i cs @ (cs ! i # drop (Suc i) cs)"
    using id_take_nth_drop [OF i] .
  from Cons.IH [OF g dc(1)] have
    b: "before_node ?k1 (cs ! i) = Some (texts_before (cs ! i) q)"
    and a: "after_node ?k2 (cs ! i) = Some (texts_after (cs ! i) q)"
    by simp_all
  have "before_node ?k1 doc = before_list ?k1 (take i cs @ (cs ! i # drop (Suc i) cs))"
    using doc kkd(1) cs by simp
  also have "\<dots> = (case before_list ?k1 (cs ! i # drop (Suc i) cs) of None \<Rightarrow> None
      | Some ts \<Rightarrow> Some (concat (map ktexts (take i cs)) @ ts))"
    by (rule before_list_skip [OF before(1)])
  also have "\<dots> = Some (concat (map ktexts (take i cs)) @ texts_before (cs ! i) q)"
    using b by simp
  finally have bd: "before_node ?k1 doc = Some (texts_before doc (i # q))"
    using doc i by simp
  have "after_node ?k2 doc = after_list ?k2 (take i cs @ (cs ! i # drop (Suc i) cs))"
    using doc kkd(2) cs by simp
  also have "\<dots> = after_list ?k2 (cs ! i # drop (Suc i) cs)"
    by (simp only: after_list_append after_none(2) [OF before(2)] option.case)
  also have "\<dots> = Some (texts_after (cs ! i) q @ concat (map ktexts (drop (Suc i) cs)))"
    using a by simp
  finally have "after_node ?k2 doc = Some (texts_after doc (i # q))"
    using doc i by simp
  with bd show ?case by simp
qed

lemma removed_keys_gone:
  assumes "doc_removeNode doc p = Inr doc'" and "getNode doc p = Some node"
    and "distinct (all_keys doc)" and "t \<in> set (ktexts doc')"
  shows "\<not> hasNode node (node_key t)"
proof -
  from doc_removeNode_keys [OF assms(1)] assms(2) obtain B A where
    "all_keys doc = B @ all_keys node @ A" "all_keys doc' = B @ A"
    by auto
  with assms(3) have "set (all_keys doc') \<inter> set (all_keys node) = {}" by auto
  with ktexts_key [OF assms(4)] show ?thesis by (auto simp: hasNode_def)
qed

text \<open>
  Claim C7. \<open>removeNode(path)\<close>, in a document whose keys are unique. The texts of the
  document are the texts before the removed subtree, the texts of the subtree, and the
  texts after it; the texts of the new document are those before and after. Each point of
  the selection, anchor and focus on their own, whose key lies inside the removed subtree
  goes to the nearest surviving text: to the end of the last text before the subtree when
  there is one, else to offset 0 of the first text after it, and that text is a text node
  of the new document and no node of the removed subtree; with no text left the selection
  becomes unset. A point outside the subtree keeps key and offset.
\<close>

theorem removeNode_nearest_surviving:
  assumes "removeNode v p = Inr v'"
    and "v_selection v = Points a f"
    and "getNode (v_document v) p = Some node"
    and "unique_keys (v_document v)"
  shows "ktexts (v_document v) =
           texts_before (v_document v) p @ ktexts node @ texts_after (v_document v) p \<and>
         ktexts (v_document v') = texts_before (v_document v) p @ texts_after (v_document v) p \<and>
         repaired (v_document v') node
           (nearest_surviving (texts_before (v_document v) p) (texts_after (v_document v) p))
           a f (v_selection v')"
proof -
  define B where "B = texts_before (v_document v) p"
  define A where "A = texts_after (v_document v) p"
  let ?k1 = "node_key (first_of node)"
  let ?k2 = "node_key (last_of node)"
  from assms(4) have d: "distinct (all_keys (v_document v))" by (simp add: unique_keys_def)
  from assms(1,3) obtain doc' where
    rm: "doc_removeNode (v_document v) p = Inr doc'"
    and m: "mapRanges (removeNode_range node (doc_getPreviousText (v_document v) ?k1)
              (doc_getNextText (v_document v) ?k2)) (v\<lparr>v_document := doc'\<rparr>) = Inr v'"
    by (auto simp: removeNode_def assertNode_def Let_def split: sum.splits)
  from m have doc: "v_document v' = doc'"
    by (auto simp: mapRanges_def split: sum.splits)
  have t1: "ktexts (v_document v) = B @ ktexts node @ A"
    unfolding B_def A_def by (rule texts_split [OF assms(3)])
  have t2: "ktexts (v_document v') = B @ A"
    unfolding B_def A_def doc by (rule removeNode_texts [OF rm])
  from neighbours_by_path [OF assms(3) d] have
    bn: "before_node ?k1 (v_document v) = Some B" and an: "after_node ?k2 (v_document v) = Some A"
    by (simp_all add: B_def A_def)
  have prev: "doc_getPreviousText (v_document v) ?k1 = (if B = [] then None else Some (last B))"
    by (cases B rule: rev_cases) (simp_all add: doc_getPreviousText_def bn)
  have nxt: "doc_getNextText (v_document v) ?k2 = (if A = [] then None else Some (hd A))"
    by (cases A) (simp_all add: doc_getNextText_def an)
  have gone: "\<not> hasNode node (node_key t)" if "t \<in> set (B @ A)" for t
    using removed_keys_gone [OF rm assms(3) d] that t2 doc by simp
  note old = removeNode_selection [OF assms(1,2,3)]
  have "repaired (v_document v') node (nearest_surviving B A) a f (v_selection v')"
  proof (cases "B = []")
    case False
    then have "last B \<in> set (B @ A)" by simp
    with gone t2 have "node_key (last B) \<in> set (map node_key (ktexts (v_document v')))"
      "\<not> hasNode node (node_key (last B))" by auto
    with old prev False show ?thesis
      by (auto simp: repaired_def nearest_surviving_def)
  next
    case True
    note noB = True
    show ?thesis
    proof (cases "A = []")
      case False
      then have "hd A \<in> set (B @ A)" by simp
      with gone t2 have "node_key (hd A) \<in> set (map node_key (ktexts (v_document v')))"
        "\<not> hasNode node (node_key (hd A))" by auto
      with old prev nxt noB False show ?thesis
        by (auto simp: repaired_def nearest_surviving_def)
    next
      case True
      with old prev nxt noB show ?thesis
        by (auto simp: repaired_def nearest_surviving_def split: if_splits)
    qed
  qed
  with t1 t2 show ?thesis by (simp add: B_def A_def)
qed

theorem removeNode_nearest_surviving_witness:
  "removeNode kvalue [0, 1] = Inr kvalue_removeNode \<and>
   v_selection kvalue = Points kanchor kfocus \<and>
   getNode (v_document kvalue) [0, 1] = Some (KText ''t2'' [] ''world'') \<and>
   unique_keys (v_document kvalue) \<and>
   texts_before (v_document kvalue) [0, 1] = [KText ''t1'' [] ''hello''] \<and>
   texts_after (v_document kvalue) [0, 1] = [KText ''t3'' [] ''again''] \<and>
   ktexts (v_document kvalue_removeNode) = [KText ''t1'' [] ''hello'', KText ''t3'' [] ''again''] \<and>
   repaired (v_document kvalue_removeNode) (KText ''t2'' [] ''world'') (Some (''t1'', 5))
     kanchor kfocus (v_selection kvalue_removeNode)"
proof -
  have h1: "removeNode kvalue [0, 1] = Inr kvalue_removeNode"
    by code_simp
  have h2: "v_selection kvalue = Points kanchor kfocus"
    by (simp add: kvalue_def)
  have h3: "getNode (v_document kvalue) [0, 1] = Some (KText ''t2'' [] ''world'')"
    by code_simp
  have h4: "unique_keys (v_document kvalue)"
    by code_simp
  have h5: "texts_before (v_document kvalue) [0, 1] = [KText ''t1'' [] ''hello'']"
    by code_simp
  have h6: "texts_after (v_document kvalue) [0, 1] = [KText ''t3'' [] ''again'']"
    by code_simp
  have h7: "nearest_surviving [KText ''t1'' [] ''hello''] [KText ''t3'' [] ''again''] = Some (''t1'', 5)"
    by code_simp
  from removeNode_nearest_surviving [OF h1 h2 h3 h4] h1 h2 h3 h4 h5 h6 h7 show ?thesis
    by simp
qed

text \<open>
  Without a text before the removed block the points go to the start of the text after
  it; when the last block goes too, the selection is unset.
\<close>

lemma removeNode_next_example:
  "map_sum id v_selection (removeNode kvalue [0]) =
     Inr (Points \<lparr>pt_key = ''t3'', pt_path = Some [0, 0], pt_offset = 0\<rparr>
                 \<lparr>pt_key = ''t3'', pt_path = Some [0, 0], pt_offset = 0\<rparr>)"
  by code_simp

lemma removeNode_unset_example:
  "map_sum id v_selection (apply_ops [RemoveNode [0], RemoveNode [0]] kvalue) = Inr Unset"
  by code_simp

subsection \<open>The selection under the operations of the Value class\<close>

lemma resolves_createSelection: "resolves d (createSelection d' r) = resolves d r"
  by (cases r) (simp_all add: createSelection_Points createSelection_Unset)

lemma resolves_mono:
  "resolves d r \<Longrightarrow> set (text_keys d) \<subseteq> set (text_keys d') \<Longrightarrow> resolves d' r"
  by (cases r) auto

lemma mapRanges_resolves:
  assumes "mapRanges iterator v = Inr v'"
    and "\<And>a f sel. v_selection v = Points a f \<Longrightarrow> iterator (Points a f) = Inr sel \<Longrightarrow>
           resolves (v_document v) sel"
  shows "resolves (v_document v') (v_selection v')" and "v_document v' = v_document v"
proof -
  from assms(1) show doc: "v_document v' = v_document v"
    by (auto simp: mapRanges_def split: sum.splits)
  show "resolves (v_document v') (v_selection v')"
  proof (cases "v_selection v")
    case Unset
    with assms(1) have "v_selection v' = Unset"
      by (auto simp: mapRanges_def split: sum.splits)
    then show ?thesis by simp
  next
    case (Points a f)
    from mapRanges_selection [OF assms(1) Points] obtain sel where
      it: "iterator (Points a f) = Inr sel"
      and s: "v_selection v' = sel \<or> v_selection v' = createSelection (v_document v) sel"
      by blast
    from assms(2) [OF Points it] s doc show ?thesis
      by (auto simp: resolves_createSelection)
  qed
qed

lemma after_subset:
  "after_node k n = Some ts \<Longrightarrow> set ts \<subseteq> set (ktexts n)"
  "after_list k cs = Some ts \<Longrightarrow> set ts \<subseteq> set (concat (map ktexts cs))"
  by (induction k n and k cs arbitrary: ts and ts rule: after_node_after_list.induct)
     (auto split: if_splits option.splits)

lemma doc_getNextText_key:
  assumes "doc_getNextText d k = Some nx"
  shows "node_key nx \<in> set (text_keys d)"
proof -
  from assms obtain ts where "after_node k d = Some (nx # ts)"
    by (auto simp: doc_getNextText_def split: option.splits list.splits)
  from after_subset(1) [OF this] show ?thesis by (simp add: text_keys_def)
qed

lemma moveStartTo_keys:
  assumes "moveStartTo nd (Points a f) k off = Inr r"
  shows "\<exists>A F. r = Points A F \<and> (pt_key A = pt_key a \<or> pt_key A = k) \<and>
           (pt_key F = pt_key f \<or> pt_key F = k)"
  using assms
  by (auto simp: moveStartTo_def moveTo_def split: sum.splits if_splits)

lemma moveEndTo_keys:
  assumes "moveEndTo nd (Points a f) k off = Inr r"
  shows "\<exists>A F. r = Points A F \<and> (pt_key A = pt_key a \<or> pt_key A = k) \<and>
           (pt_key F = pt_key f \<or> pt_key F = k)"
  using assms
  by (auto simp: moveEndTo_def moveTo_def split: sum.splits if_splits)

lemma splitNode_range_keys:
  assumes "splitNode_range nd node position (Points a f) = Inr r"
  shows "\<exists>A F. r = Points A F \<and>
           (pt_key A = pt_key a \<or> (\<exists>nx. doc_getNextText nd (node_key node) = Some nx \<and> pt_key A = node_key nx)) \<and>
           (pt_key F = pt_key f \<or> (\<exists>nx. doc_getNextText nd (node_key node) = Some nx \<and> pt_key F = node_key nx))"
proof -
  let ?nxt = "doc_getNextText nd (node_key node)"
  let ?ok = "\<lambda>pt pt'. pt_key pt' = pt_key pt \<or> (\<exists>nx. ?nxt = Some nx \<and> pt_key pt' = node_key nx)"
  from assms obtain start end' range1 range2 where
    s: "range_start nd (Points a f) = Inr (Some start)"
    and e: "range_end nd (Points a f) = Inr (Some end')"
    and r1: "(if node_key node = pt_key start \<and> position \<le> pt_offset start
              then (case ?nxt of None \<Rightarrow> Inl TypeError
                    | Some nx \<Rightarrow> moveStartTo nd (Points a f) (node_key nx) (pt_offset start - position))
              else Inr (Points a f)) = Inr range1"
    and r2: "(if node_key node = pt_key end' \<and> position \<le> pt_offset end'
              then (case ?nxt of None \<Rightarrow> Inl TypeError
                    | Some nx \<Rightarrow> moveEndTo nd range1 (node_key nx) (pt_offset end' - position))
              else Inr range1) = Inr range2"
    and r: "r = updatePoints (\<lambda>point. setPath point None) range2"
    by (auto simp: splitNode_range_def Let_def split: sum.splits option.splits)
  from r1 obtain A1 F1 where p1: "range1 = Points A1 F1" "?ok a A1" "?ok f F1"
    by (auto split: if_splits option.splits dest!: moveStartTo_keys)
  from r2 p1 obtain A2 F2 where p2: "range2 = Points A2 F2" "?ok A1 A2" "?ok F1 F2"
    by (auto split: if_splits option.splits dest!: moveEndTo_keys)
  from p1(2,3) p2(2,3) have "?ok a A2" "?ok f F2" by auto
  with r p2(1) show ?thesis by (auto simp: setPath_def)
qed


lemma splitNode_invariant:
  assumes "splitNode v p position props k' = Inr v'"
    and "unique_keys (v_document v)" and "k' \<notin> set (all_keys (v_document v))"
    and "resolves (v_document v) (v_selection v)"
  shows "unique_keys (v_document v') \<and> resolves (v_document v') (v_selection v')"
proof -
  from assms(1) obtain doc' node where
    sp: "doc_splitNode (v_document v) p position props k' = Inr doc'"
    and m: "mapRanges (splitNode_range doc' node position) (v\<lparr>v_document := doc'\<rparr>) = Inr v'"
    by (auto simp: splitNode_def split: sum.splits)
  note dk = doc_splitNode_keys [OF sp]
  let ?v1 = "v\<lparr>v_document := doc'\<rparr>"
  have r1: "resolves (v_document ?v1) (v_selection ?v1)"
    using resolves_mono [OF assms(4) dk(1)] by simp
  have "resolves (v_document ?v1) sel"
    if "v_selection ?v1 = Points a f" "splitNode_range doc' node position (Points a f) = Inr sel"
    for a f sel
  proof -
    from splitNode_range_keys [OF that(2)] obtain A F where
      "sel = Points A F"
      "pt_key A = pt_key a \<or> (\<exists>nx. doc_getNextText doc' (node_key node) = Some nx \<and> pt_key A = node_key nx)"
      "pt_key F = pt_key f \<or> (\<exists>nx. doc_getNextText doc' (node_key node) = Some nx \<and> pt_key F = node_key nx)"
      by blast
    with r1 that(1) show ?thesis
      by (auto dest: doc_getNextText_key)
  qed
  from mapRanges_resolves [OF m this] dk(2) [OF assms(2,3)] show ?thesis by simp
qed

lemma mergeNode_range_keys_text:
  assumes "mergeNode_range (Some on) (Some two) (Points a f) = Inr r" and "is_text two"
  shows "\<exists>A F. r = Points A F \<and>
           pt_key A = (if pt_key a = node_key two then node_key on else pt_key a) \<and>
           pt_key F = (if pt_key f = node_key two then node_key on else pt_key f)"
  using assms
  by (auto simp: mergeNode_range_def Let_def setPath_def moveTo_def)

lemma mergeNode_range_keys_element:
  assumes "mergeNode_range one (Some two) (Points a f) = Inr r" and "\<not> is_text two"
  shows "\<exists>A F. r = Points A F \<and> pt_key A = pt_key a \<and> pt_key F = pt_key f"
  using assms
  by (auto simp: mergeNode_range_def setPath_def)

lemma mergeNode_invariant:
  assumes "mergeNode v p = Inr v'"
    and "unique_keys (v_document v)"
    and "resolves (v_document v) (v_selection v)"
  shows "unique_keys (v_document v') \<and> resolves (v_document v') (v_selection v')"
proof -
  define one where
    "one = (case Path_decrement p of None \<Rightarrow> None | Some q \<Rightarrow> getNode (v_document v) q)"
  from assms(1) obtain doc' where
    mg: "doc_mergeNode (v_document v) p = Inr doc'"
    and m: "mapRanges (mergeNode_range one (getNode (v_document v) p)) (v\<lparr>v_document := doc'\<rparr>) = Inr v'"
    by (auto simp: mergeNode_def Let_def one_def split: sum.splits)
  from doc_mergeNode_keys [OF mg] obtain q on two where
    q: "Path_decrement p = Some q" "getNode (v_document v) q = Some on"
    and two: "getNode (v_document v) p = Some two"
    and u: "unique_keys (v_document v) \<longrightarrow> unique_keys doc'"
    and t: "is_text two \<longrightarrow> node_key on \<in> set (text_keys doc') \<and>
              (\<forall>x \<in> set (text_keys (v_document v)). x \<noteq> node_key two \<longrightarrow> x \<in> set (text_keys doc'))"
    and e: "\<not> is_text two \<longrightarrow> text_keys doc' = text_keys (v_document v)"
    by blast
  from q have one: "one = Some on" by (simp add: one_def)
  let ?v1 = "v\<lparr>v_document := doc'\<rparr>"
  have "resolves (v_document ?v1) sel"
    if "v_selection ?v1 = Points a f"
      "mergeNode_range one (getNode (v_document v) p) (Points a f) = Inr sel"
    for a f sel
  proof -
    from assms(3) that(1) have k: "pt_key a \<in> set (text_keys (v_document v))"
      "pt_key f \<in> set (text_keys (v_document v))" by simp_all
    show ?thesis
    proof (cases "is_text two")
      case True
      from mergeNode_range_keys_text [OF that(2) [unfolded one two] True] obtain A F where
        "sel = Points A F"
        "pt_key A = (if pt_key a = node_key two then node_key on else pt_key a)"
        "pt_key F = (if pt_key f = node_key two then node_key on else pt_key f)"
        by blast
      with True t k show ?thesis by auto
    next
      case False
      from mergeNode_range_keys_element [OF that(2) [unfolded two] False] obtain A F where
        "sel = Points A F" "pt_key A = pt_key a" "pt_key F = pt_key f"
        by blast
      with False e k show ?thesis by auto
    qed
  qed
  from mapRanges_resolves [OF m this] u assms(2) show ?thesis by simp
qed


lemma removeNode_range_keys:
  assumes "removeNode_range node prev nxt (Points a f) = Inr r"
  shows "r = Unset \<or>
         (\<exists>A F. r = Points A F \<and>
            ((\<not> hasNode node (pt_key a) \<and> pt_key A = pt_key a) \<or>
             (\<exists>pv. prev = Some pv \<and> pt_key A = node_key pv) \<or>
             (\<exists>nx. nxt = Some nx \<and> pt_key A = node_key nx)) \<and>
            ((\<not> hasNode node (pt_key f) \<and> pt_key F = pt_key f) \<or>
             (\<exists>pv. prev = Some pv \<and> pt_key F = node_key pv) \<or>
             (\<exists>nx. nxt = Some nx \<and> pt_key F = node_key nx)))"
  using assms
  by (cases prev; cases nxt; cases "hasNode node (pt_key a)"; cases "hasNode node (pt_key f)")
     (auto simp: removeNode_range_def relocate_def Let_def setPath_def moveTo_def)

lemma removeNode_invariant:
  assumes "removeNode v p = Inr v'"
    and "unique_keys (v_document v)"
    and "resolves (v_document v) (v_selection v)"
  shows "unique_keys (v_document v') \<and> resolves (v_document v') (v_selection v')"
proof -
  from assms(1) obtain node doc' where
    node: "getNode (v_document v) p = Some node"
    and rm: "doc_removeNode (v_document v) p = Inr doc'"
    and m: "mapRanges (removeNode_range node
              (doc_getPreviousText (v_document v) (node_key (first_of node)))
              (doc_getNextText (v_document v) (node_key (last_of node))))
            (v\<lparr>v_document := doc'\<rparr>) = Inr v'"
    by (auto simp: removeNode_def assertNode_def Let_def split: sum.splits option.splits)
  from doc_removeNode_keys [OF rm] node obtain B A Bt At where
    ak: "all_keys (v_document v) = B @ all_keys node @ A" "all_keys doc' = B @ A"
    and tk: "text_keys (v_document v) = Bt @ text_keys node @ At" "text_keys doc' = Bt @ At"
    by auto
  note pn = remove_prev_next [OF rm node assms(2)]
  have keep: "x \<in> set (text_keys doc')"
    if "x \<in> set (text_keys (v_document v))" "\<not> hasNode node x" for x
  proof -
    from that(2) text_keys_subset [of node] have "x \<notin> set (text_keys node)"
      by (auto simp: hasNode_def)
    with that(1) tk show ?thesis by auto
  qed
  from assms(2) ak have u: "unique_keys doc'" by (auto simp: unique_keys_def)
  let ?v1 = "v\<lparr>v_document := doc'\<rparr>"
  have "resolves (v_document ?v1) sel"
    if "v_selection ?v1 = Points a f"
      "removeNode_range node
         (doc_getPreviousText (v_document v) (node_key (first_of node)))
         (doc_getNextText (v_document v) (node_key (last_of node))) (Points a f) = Inr sel"
    for a f sel
  proof -
    from assms(3) that(1) have k: "pt_key a \<in> set (text_keys (v_document v))"
      "pt_key f \<in> set (text_keys (v_document v))" by simp_all
    from removeNode_range_keys [OF that(2)] show ?thesis
    proof
      assume "sel = Unset"
      then show ?thesis by simp
    next
      assume "\<exists>A F. sel = Points A F \<and>
            ((\<not> hasNode node (pt_key a) \<and> pt_key A = pt_key a) \<or>
             (\<exists>pv. doc_getPreviousText (v_document v) (node_key (first_of node)) = Some pv \<and> pt_key A = node_key pv) \<or>
             (\<exists>nx. doc_getNextText (v_document v) (node_key (last_of node)) = Some nx \<and> pt_key A = node_key nx)) \<and>
            ((\<not> hasNode node (pt_key f) \<and> pt_key F = pt_key f) \<or>
             (\<exists>pv. doc_getPreviousText (v_document v) (node_key (first_of node)) = Some pv \<and> pt_key F = node_key pv) \<or>
             (\<exists>nx. doc_getNextText (v_document v) (node_key (last_of node)) = Some nx \<and> pt_key F = node_key nx))"
      then obtain A F where sel: "sel = Points A F"
        and A: "(\<not> hasNode node (pt_key a) \<and> pt_key A = pt_key a) \<or>
             (\<exists>pv. doc_getPreviousText (v_document v) (node_key (first_of node)) = Some pv \<and> pt_key A = node_key pv) \<or>
             (\<exists>nx. doc_getNextText (v_document v) (node_key (last_of node)) = Some nx \<and> pt_key A = node_key nx)"
        and F: "(\<not> hasNode node (pt_key f) \<and> pt_key F = pt_key f) \<or>
             (\<exists>pv. doc_getPreviousText (v_document v) (node_key (first_of node)) = Some pv \<and> pt_key F = node_key pv) \<or>
             (\<exists>nx. doc_getNextText (v_document v) (node_key (last_of node)) = Some nx \<and> pt_key F = node_key nx)"
        by blast
      from A k(1) keep pn have "pt_key A \<in> set (text_keys doc')" by auto
      moreover from F k(2) keep pn have "pt_key F \<in> set (text_keys doc')" by auto
      ultimately show ?thesis using sel by simp
    qed
  qed
  from mapRanges_resolves [OF m this] u show ?thesis by simp
qed

lemma updatePoints_keys:
  "resolves d (updatePoints (\<lambda>point. setPath point q) r) = resolves d r"
  by (cases r) (simp_all add: setPath_def)

lemma insertNode_invariant:
  assumes "insertNode v p n = Inr v'"
    and "unique_keys (v_document v)"
    and "distinct (all_keys n)" and "set (all_keys n) \<inter> set (all_keys (v_document v)) = {}"
    and "resolves (v_document v) (v_selection v)"
  shows "unique_keys (v_document v') \<and> resolves (v_document v') (v_selection v')"
proof -
  from assms(1) obtain doc' where
    ins: "doc_insertNode (v_document v) p n = Inr doc'"
    and m: "mapRanges (\<lambda>rng. Inr (updatePoints (\<lambda>point. setPath point None) rng))
              (v\<lparr>v_document := doc'\<rparr>) = Inr v'"
    by (auto simp: insertNode_def split: sum.splits)
  note ik = doc_insertNode_keys [OF ins]
  let ?v1 = "v\<lparr>v_document := doc'\<rparr>"
  have r1: "resolves doc' (v_selection v)"
    using resolves_mono [OF assms(5) ik(1)] .
  have "resolves (v_document ?v1) sel"
    if "v_selection ?v1 = Points a f"
      "Inr (updatePoints (\<lambda>point. setPath point None) (Points a f)) = (Inr sel :: Error + KRange)"
    for a f sel
    using that r1 by (auto simp: setPath_def)
  from mapRanges_resolves [OF m this] ik(2) [OF assms(2,3,4)] show ?thesis by simp
qed

lemma moveNode_invariant:
  assumes "moveNode v p newPath newIndex = Inr v'"
    and "unique_keys (v_document v)"
    and "resolves (v_document v) (v_selection v)"
  shows "unique_keys (v_document v') \<and> resolves (v_document v') (v_selection v')"
proof (cases "p = newPath")
  case True
  with assms show ?thesis by (simp add: moveNode_def)
next
  case False
  with assms(1) obtain doc' where
    mv: "doc_moveNode (v_document v) p newPath newIndex = Inr doc'"
    and m: "mapRanges (\<lambda>rng. updatePointsE (\<lambda>point. Inr (setPath point None)) rng)
              (v\<lparr>v_document := doc'\<rparr>) = Inr v'"
    by (auto simp: moveNode_def mapPoints_def split: sum.splits)
  note mk = doc_moveNode_keys [OF mv]
  let ?v1 = "v\<lparr>v_document := doc'\<rparr>"
  have r1: "resolves doc' (v_selection v)"
    using resolves_mono [OF assms(3)] mk(1) by simp
  have "resolves (v_document ?v1) sel"
    if "v_selection ?v1 = Points a f"
      "updatePointsE (\<lambda>point. Inr (setPath point None)) (Points a f) = Inr sel"
    for a f sel
    using that r1 by (auto simp: setPath_def)
  from mapRanges_resolves [OF m this] mk(2) [OF assms(2)] show ?thesis by simp
qed

lemma setNode_invariant:
  assumes "setNode v p props = Inr v'"
    and "unique_keys (v_document v)"
    and "resolves (v_document v) (v_selection v)"
  shows "unique_keys (v_document v') \<and> resolves (v_document v') (v_selection v')"
proof -
  from assms(1) obtain doc' where
    sn: "doc_setNode (v_document v) p props = Inr doc'" and v': "v' = v\<lparr>v_document := doc'\<rparr>"
    by (auto simp: setNode_def split: sum.splits)
  from doc_setNode_keys [OF sn] assms(2,3) v' show ?thesis
    by (cases "v_selection v") (simp_all add: unique_keys_def)
qed

lemma insertText_invariant:
  assumes "insertText v p off str = Inr v'"
    and "unique_keys (v_document v)"
    and "resolves (v_document v) (v_selection v)"
  shows "unique_keys (v_document v') \<and> resolves (v_document v') (v_selection v')"
proof -
  from assms(1) obtain doc' where
    it: "doc_insertText (v_document v) p off str = Inr doc'"
    and m: "mapRanges (\<lambda>rng. updatePointsE (insertText_point p off str) rng)
              (v\<lparr>v_document := doc'\<rparr>) = Inr v'"
    by (auto simp: insertText_def mapPoints_def split: sum.splits)
  note k = doc_insertText_keys [OF it]
  let ?v1 = "v\<lparr>v_document := doc'\<rparr>"
  have "resolves (v_document ?v1) sel"
    if "v_selection ?v1 = Points a f"
      "updatePointsE (insertText_point p off str) (Points a f) = Inr sel"
    for a f sel
  proof -
    from assms(3) that(1) k have ka: "pt_key a \<in> set (text_keys doc')"
      "pt_key f \<in> set (text_keys doc')" by simp_all
    from that(2) obtain A F where "sel = Points A F" "pt_key A = pt_key a" "pt_key F = pt_key f"
      by (auto simp: insertText_point_def setOffset_def split: option.splits if_splits sum.splits)
    with ka show ?thesis by simp
  qed
  from mapRanges_resolves [OF m this] k assms(2) show ?thesis by (simp add: unique_keys_def)
qed

lemma removeText_invariant:
  assumes "removeText v p off str = Inr v'"
    and "unique_keys (v_document v)"
    and "resolves (v_document v) (v_selection v)"
  shows "unique_keys (v_document v') \<and> resolves (v_document v') (v_selection v')"
proof -
  from assms(1) obtain node doc' where
    rt: "doc_removeText (v_document v) p off str = Inr doc'"
    and m: "mapRanges (\<lambda>rng. updatePointsE (\<lambda>point. Inr (removeText_point node off str point)) rng)
              (v\<lparr>v_document := doc'\<rparr>) = Inr v'"
    by (auto simp: removeText_def mapPoints_def split: sum.splits)
  note k = doc_removeText_keys [OF rt]
  let ?v1 = "v\<lparr>v_document := doc'\<rparr>"
  have "resolves (v_document ?v1) sel"
    if "v_selection ?v1 = Points a f"
      "updatePointsE (\<lambda>point. Inr (removeText_point node off str point)) (Points a f) = Inr sel"
    for a f sel
  proof -
    from assms(3) that(1) k have ka: "pt_key a \<in> set (text_keys doc')"
      "pt_key f \<in> set (text_keys doc')" by simp_all
    from that(2) obtain A F where "sel = Points A F" "pt_key A = pt_key a" "pt_key F = pt_key f"
      by (auto simp: removeText_point_def setOffset_def Let_def split: if_splits)
    with ka show ?thesis by simp
  qed
  from mapRanges_resolves [OF m this] k assms(2) show ?thesis by (simp add: unique_keys_def)
qed


lemma apply_op_invariant:
  assumes "apply_op op v = Inr v'"
    and "unique_keys (v_document v)"
    and "fresh_keys op (v_document v)"
    and "resolves (v_document v) (v_selection v)"
  shows "unique_keys (v_document v') \<and> resolves (v_document v') (v_selection v')"
proof (cases op)
  case (SplitNode p position props newKey)
  with assms show ?thesis using splitNode_invariant [of v p position props newKey v'] by simp
next
  case (MergeNode p)
  with assms show ?thesis using mergeNode_invariant [of v p v'] by simp
next
  case (InsertNode p n)
  with assms show ?thesis using insertNode_invariant [of v p n v'] by simp
next
  case (RemoveNode p)
  with assms show ?thesis using removeNode_invariant [of v p v'] by simp
next
  case (MoveNode p newPath newIndex)
  with assms show ?thesis using moveNode_invariant [of v p newPath newIndex v'] by simp
next
  case (SetNode p props)
  with assms show ?thesis using setNode_invariant [of v p props v'] by simp
next
  case (InsertText p off str)
  with assms show ?thesis using insertText_invariant [of v p off str v'] by simp
next
  case (RemoveText p off str)
  with assms show ?thesis using removeText_invariant [of v p off str v'] by simp
qed

lemma apply_ops_invariant:
  assumes "apply_ops ops v = Inr v'"
    and "unique_keys (v_document v)"
    and "all_fresh ops v"
    and "resolves (v_document v) (v_selection v)"
  shows "unique_keys (v_document v') \<and> resolves (v_document v') (v_selection v')"
  using assms
proof (induction ops arbitrary: v)
  case Nil
  then show ?case by simp
next
  case (Cons op ops)
  from Cons.prems(1) obtain v1 where
    op: "apply_op op v = Inr v1" and rest: "apply_ops ops v1 = Inr v'"
    by (auto split: sum.splits)
  from Cons.prems(3) op have f: "fresh_keys op (v_document v)" and fr: "all_fresh ops v1"
    by simp_all
  from apply_op_invariant [OF op Cons.prems(2) f Cons.prems(4)]
  have "unique_keys (v_document v1)" "resolves (v_document v1) (v_selection v1)"
    by simp_all
  from Cons.IH [OF rest this(1) fr this(2)] show ?case .
qed

text \<open>
  Claim C4. Take a value whose document has unique keys and whose selection is unset or
  has both points on text nodes of the document, and any finite sequence of the operations
  splitNode, mergeNode, insertNode, removeNode, moveNode, setNode, insertText and
  removeText that the value accepts, where the key given to a split and the keys of an
  inserted node are new to the document at that moment. Then the selection of the
  resulting value is unset, or the keys of both of its points are keys of text nodes that
  exist in the resulting document.
\<close>

theorem selection_never_dangles:
  assumes "apply_ops ops v = Inr v'"
    and "unique_keys (v_document v)"
    and "all_fresh ops v"
    and "resolves (v_document v) (v_selection v)"
  shows "v_selection v' = Unset \<or>
         (\<exists>a f. v_selection v' = Points a f \<and>
            pt_key a \<in> set (text_keys (v_document v')) \<and> hasNode (v_document v') (pt_key a) \<and>
            pt_key f \<in> set (text_keys (v_document v')) \<and> hasNode (v_document v') (pt_key f))"
proof -
  from apply_ops_invariant [OF assms] have r: "resolves (v_document v') (v_selection v')"
    by simp
  show ?thesis
  proof (cases "v_selection v'")
    case Unset
    then show ?thesis by simp
  next
    case (Points a f)
    with r text_keys_subset [of "v_document v'"] show ?thesis
      by (auto simp: hasNode_def)
  qed
qed

theorem selection_never_dangles_witness:
  "apply_ops kops kvalue = Inr kvalue_kops \<and>
   unique_keys (v_document kvalue) \<and>
   all_fresh kops kvalue \<and>
   resolves (v_document kvalue) (v_selection kvalue) \<and>
   (\<exists>a f. v_selection kvalue_kops = Points a f \<and>
      hasNode (v_document kvalue_kops) (pt_key a) \<and>
      hasNode (v_document kvalue_kops) (pt_key f))"
proof -
  have h1: "apply_ops kops kvalue = Inr kvalue_kops"
    by code_simp
  have h2: "unique_keys (v_document kvalue)"
    by code_simp
  have h3: "all_fresh kops kvalue"
    by code_simp
  have h4: "resolves (v_document kvalue) (v_selection kvalue)"
    by code_simp
  have h5: "v_selection kvalue_kops \<noteq> Unset"
    by (simp add: kvalue_kops_def)
  from selection_never_dangles [OF h1 h2 h3 h4] h1 h2 h3 h4 h5 show ?thesis
    by blast
qed

end
